theory Spec2Isabelle
  imports Main "HOL-Library.Code_Target_Nat"
begin

section \<open>Bytes and lines\<close>

text \<open>
  A Go \<^verbatim>\<open>[]byte\<close> and a Go \<^verbatim>\<open>string\<close> are both sequences of 8-bit bytes.
  An Isabelle \<^typ>\<open>char\<close> is exactly one byte, so both are modelled as \<^typ>\<open>char list\<close>.
\<close>

type_synonym byte = char

abbreviation CR :: byte where "CR \<equiv> CHR 0x0D"
abbreviation LF :: byte where "LF \<equiv> CHR 0x0A"

text \<open>
  \<^verbatim>\<open>bytes.IndexAny(data, chars)\<close> for ASCII \<^verbatim>\<open>chars\<close>: the index of the first byte of
  \<^verbatim>\<open>data\<close> that occurs in \<^verbatim>\<open>chars\<close>; Go's \<^verbatim>\<open>-1\<close> is \<open>None\<close>.
\<close>

fun IndexAny :: "byte list \<Rightarrow> byte list \<Rightarrow> nat option" where
  "IndexAny [] chars = None"
| "IndexAny (x # xs) chars =
     (if x \<in> set chars then Some 0 else map_option Suc (IndexAny xs chars))"

subsection \<open>The split function of ParseBody (adstxt.go, lines 105-126)\<close>

datatype scan_error = EOF | ErrTooLong | ErrAdvanceTooFar | ErrNoProgress

text \<open>
  The result is Go's triple \<^verbatim>\<open>(advance, token, err)\<close>; a \<^verbatim>\<open>nil\<close> token is \<open>None\<close>,
  and \<^verbatim>\<open>data[0:i]\<close> is \<open>take i data\<close>, which is non-nil even when it is empty.
\<close>

definition split :: "byte list \<Rightarrow> bool \<Rightarrow> nat \<times> byte list option \<times> scan_error option" where
  "split data atEOF =
     (if atEOF \<and> length data = 0 then (0, None, None)
      else case IndexAny data [CR, LF] of
        Some i \<Rightarrow>
          if data ! i = LF then (i + 1, Some (take i data), None)
          else (if length data > i + 1 \<and> data ! (i + 1) = LF then i + 1 + 1 else i + 1,
                Some (take i data), None)
      | None \<Rightarrow>
          if atEOF then (length data, Some data, None)
          else (0, None, None))"

subsection \<open>bufio.Scanner over bytes.Reader\<close>

text \<open>
  ParseBody drives \<^verbatim>\<open>split\<close> through Go's \<^verbatim>\<open>bufio.Scanner\<close> reading from a
  \<^verbatim>\<open>bytes.Reader\<close>. The scanner is modelled with the fields its \<^verbatim>\<open>Scan\<close> method uses:
  \<^item> \<open>src\<close>: the bytes the reader has not handed out yet (\<^verbatim>\<open>r.s[r.i:]\<close>);
  \<^item> \<open>buf_len\<close>: \<^verbatim>\<open>len(s.buf)\<close>;
  \<^item> \<open>start\<close>: \<^verbatim>\<open>s.start\<close>;
  \<^item> \<open>window\<close>: the buffered, unconsumed bytes \<^verbatim>\<open>s.buf[s.start:s.end]\<close>, so that
    \<^verbatim>\<open>s.end\<close> is \<open>start + length window\<close> (bytes of the buffer outside this window are never read);
  \<^item> \<open>tok\<close>: \<^verbatim>\<open>s.tok\<close>; \<open>scan_err\<close>: \<^verbatim>\<open>s.err\<close>.
  The constants are those of package \<^verbatim>\<open>bufio\<close>: the buffer starts at 4096 bytes, doubles when
  it is full, and never exceeds \<^verbatim>\<open>MaxScanTokenSize\<close> = 64 * 1024 bytes.
\<close>

record scanner =
  src :: "byte list"
  buf_len :: nat
  start :: nat
  window :: "byte list"
  tok :: "byte list option"
  scan_err :: "scan_error option"

definition startBufSize :: nat where "startBufSize = 4096"
definition MaxScanTokenSize :: nat where "MaxScanTokenSize = 64 * 1024"

definition NewScanner :: "byte list \<Rightarrow> scanner" where
  "NewScanner b = \<lparr>src = b, buf_len = 0, start = 0, window = [], tok = None, scan_err = None\<rparr>"

definition setErr :: "scanner \<Rightarrow> scan_error \<Rightarrow> scanner" where
  "setErr s e = (if scan_err s = None \<or> scan_err s = Some EOF then s\<lparr>scan_err := Some e\<rparr> else s)"

text \<open>
  First half of one iteration of the loop in \<^verbatim>\<open>Scan\<close>: if there is buffered data, or the input
  has ended, ask \<^verbatim>\<open>split\<close> for a token. \<open>Inl\<close> is a \<^verbatim>\<open>return\<close> of \<^verbatim>\<open>Scan\<close>, \<open>Inr\<close> falls
  through to the second half. (\<^verbatim>\<open>split\<close> never returns \<^verbatim>\<open>ErrFinalToken\<close> or a negative
  advance, and a non-nil token always comes with a positive advance, so the scanner's
  \<^verbatim>\<open>done\<close> flag and its count of empty tokens stay at their initial values.)
\<close>

definition try_token :: "scanner \<Rightarrow> (bool \<times> scanner) + scanner" where
  "try_token s =
     (if window s \<noteq> [] \<or> scan_err s \<noteq> None then
        (case split (window s) (scan_err s \<noteq> None) of
           (advance, token, e) \<Rightarrow>
             (case e of
                Some x \<Rightarrow> Inl (False, setErr s x)
              | None \<Rightarrow>
                  if advance > length (window s) then Inl (False, setErr s ErrAdvanceTooFar)
                  else
                    let s1 = s\<lparr>start := start s + advance,
                               window := drop advance (window s), tok := token\<rparr>
                    in (case token of Some t \<Rightarrow> Inl (True, s1) | None \<Rightarrow> Inr s1)))
      else Inr s)"

text \<open>
  \<^verbatim>\<open>bytes.Reader.Read\<close> into the free tail of the buffer: at the end of the input it returns
  \<^verbatim>\<open>(0, io.EOF)\<close>, otherwise it copies as many bytes as fit. The scanner's retry loop around
  the read ends with \<^verbatim>\<open>io.ErrNoProgress\<close> should a read return nothing without an error.
\<close>

definition Read :: "scanner \<Rightarrow> scanner" where
  "Read s =
     (if src s = [] then setErr s EOF
      else
        let n = min (buf_len s - (start s + length (window s))) (length (src s))
        in if n > 0 then s\<lparr>window := window s @ take n (src s), src := drop n (src s)\<rparr>
           else setErr s ErrNoProgress)"

text \<open>
  Second half of the iteration: stop if the input has ended; otherwise shift the window to
  the front of the buffer, grow a full buffer (or fail with \<^verbatim>\<open>ErrTooLong\<close>), and read.
  (The scanner's second guard, \<^verbatim>\<open>len(s.buf) > maxInt/2\<close>, protects the doubling from overflow;
  with a buffer of at most 65536 bytes it is never true and is left out.)
\<close>

definition read_more :: "scanner \<Rightarrow> (bool \<times> scanner) + scanner" where
  "read_more s =
     (if scan_err s \<noteq> None then Inl (False, s\<lparr>start := 0, window := []\<rparr>)
      else
        let s1 = (if start s > 0 \<and>
                     (start s + length (window s) = buf_len s \<or> start s > buf_len s div 2)
                  then s\<lparr>start := 0\<rparr> else s)
        in if start s1 + length (window s1) = buf_len s1 then
             (if buf_len s1 \<ge> MaxScanTokenSize
              then Inl (False, setErr s1 ErrTooLong)
              else
                let newSize = min (if buf_len s1 * 2 = 0 then startBufSize else buf_len s1 * 2)
                                  MaxScanTokenSize
                in Inr (Read (s1\<lparr>buf_len := newSize, start := 0\<rparr>)))
           else Inr (Read s1))"

lemma try_token_Inr:
  "try_token s = Inr s1 \<Longrightarrow>
     scan_err s1 = scan_err s \<and> src s1 = src s \<and> length (window s1) \<le> length (window s)"
  by (auto simp: try_token_def Let_def split: if_splits prod.splits option.splits)

lemma Read_cases:
  "scan_err s = None \<Longrightarrow>
     window (Read s) @ src (Read s) = window s @ src s \<and>
     (length (src (Read s)) < length (src s) \<or> (src (Read s) = src s \<and> scan_err (Read s) \<noteq> None))"
  by (auto simp: Read_def setErr_def Let_def)

lemma read_more_Inr:
  "read_more s = Inr s2 \<Longrightarrow>
     scan_err s = None \<and> window s2 @ src s2 = window s @ src s \<and>
     (length (src s2) < length (src s) \<or> (src s2 = src s \<and> scan_err s2 \<noteq> None))"
  using Read_cases [of "s\<lparr>start := 0\<rparr>"] Read_cases [of s]
    Read_cases [of "s\<lparr>start := 0, buf_len := min (if buf_len s * 2 = 0 then startBufSize else buf_len s * 2) MaxScanTokenSize\<rparr>"]
    Read_cases [of "s\<lparr>buf_len := min (if buf_len s * 2 = 0 then startBufSize else buf_len s * 2) MaxScanTokenSize, start := 0\<rparr>"]
  by (auto simp: read_more_def Let_def split: if_splits)

function Scan :: "scanner \<Rightarrow> bool \<times> scanner" where
  "Scan s =
     (case try_token s of
        Inl r \<Rightarrow> r
      | Inr s1 \<Rightarrow> (case read_more s1 of Inl r \<Rightarrow> r | Inr s2 \<Rightarrow> Scan s2))"
  by pat_completeness auto

termination
proof (relation "measures [\<lambda>s. length (window s) + length (src s), \<lambda>s. length (src s),
                           \<lambda>s. if scan_err s = None then 1 else 0]")
  show "wf (measures [\<lambda>s. length (window s) + length (src s), \<lambda>s. length (src s),
                      \<lambda>s. if scan_err s = None then 1 else (0::nat)])"
    by simp
next
  fix s s1 s2
  assume a: "try_token s = Inr s1" and b: "read_more s1 = Inr s2"
  from try_token_Inr [OF a] read_more_Inr [OF b]
  have "scan_err s = None" and "src s1 = src s" and "length (window s1) \<le> length (window s)"
    and "length (window s2) + length (src s2) = length (window s1) + length (src s1)"
    and "length (src s2) < length (src s1) \<or> (src s2 = src s1 \<and> scan_err s2 \<noteq> None)"
    by (auto dest: arg_cong [where f = length])
  then show "(s2, s) \<in> measures [\<lambda>s. length (window s) + length (src s), \<lambda>s. length (src s),
                                   \<lambda>s. if scan_err s = None then 1 else 0]"
    by auto
qed

declare Scan.simps [simp del]

text \<open>\<^verbatim>\<open>scanner.Text()\<close> and \<^verbatim>\<open>scanner.Err()\<close>; the latter hides \<^verbatim>\<open>io.EOF\<close>.\<close>

definition Text :: "scanner \<Rightarrow> string" where
  "Text s = (case tok s of None \<Rightarrow> [] | Some t \<Rightarrow> t)"

definition Err :: "scanner \<Rightarrow> scan_error option" where
  "Err s = (if scan_err s = Some EOF then None else scan_err s)"

lemma split_token_advance:
  "split data atEOF = (advance, Some t, e) \<Longrightarrow> 0 < advance"
  by (auto simp: split_def split: if_splits option.splits)

lemma try_token_True:
  "try_token s = Inl (True, s') \<Longrightarrow>
     src s' = src s \<and> length (window s') < length (window s)"
  by (auto simp: try_token_def Let_def setErr_def
      split: if_splits prod.splits option.splits dest: split_token_advance)

lemma read_more_True: "read_more s \<noteq> Inl (True, s')"
  by (auto simp: read_more_def Let_def split: if_splits)

lemma Scan_True_decreases:
  "Scan s = (True, s') \<Longrightarrow>
     length (window s') + length (src s') < length (window s) + length (src s)"
proof (induction s rule: Scan.induct)
  case (1 s)
  show ?case
  proof (cases "try_token s")
    case (Inl r)
    with "1.prems" have "try_token s = Inl (True, s')" by (simp add: Scan.simps [of s])
    from try_token_True [OF this] show ?thesis by simp
  next
    case (Inr s1)
    note tt = try_token_Inr [OF Inr]
    show ?thesis
    proof (cases "read_more s1")
      case (Inl r)
      with Inr "1.prems" have "read_more s1 = Inl (True, s')" by (simp add: Scan.simps [of s])
      with read_more_True show ?thesis by blast
    next
      case rm: (Inr s2)
      from Inr rm "1.prems" have "Scan s2 = (True, s')" by (simp add: Scan.simps [of s])
      from "1.IH" [OF Inr rm this] read_more_Inr [OF rm] tt
      show ?thesis by (auto dest: arg_cong [where f = length])
    qed
  qed
qed

text \<open>
  The loop of ParseBody (lines 132-135): \<^verbatim>\<open>for scanner.Scan() { lines = append(lines, scanner.Text()) }\<close>.
\<close>

function scan_lines :: "scanner \<Rightarrow> string list \<Rightarrow> string list \<times> scanner" where
  "scan_lines s lines =
     (case Scan s of
        (True, s') \<Rightarrow> scan_lines s' (lines @ [Text s'])
      | (False, s') \<Rightarrow> (lines, s'))"
  by pat_completeness auto
termination
proof (relation "measure (\<lambda>(s, lines). length (window s) + length (src s))", goal_cases)
  case 1
  show ?case by simp
next
  case prems: (2 s lines x s')
  from prems have "Scan s = (True, s')" by simp
  from Scan_True_decreases [OF this] show ?case by simp
qed

declare scan_lines.simps [simp del]

subsection \<open>ParseBody (adstxt.go, lines 103-142)\<close>

text \<open>
  The record types and \<^verbatim>\<open>parseRecords\<close> are declared in files of the repository that are
  not part of the examined source; they are modelled from the specification.
\<close>

datatype RelationshipType = DIRECT | RESELLER

text \<open>
  Modelled from the spec: the Record of section 3 (its Go declaration is missing), a tagged
  variant with a Data Record (AdSystemDomain, PublisherAccountID, RelationshipType, optional
  CertificationAuthorityID) and a Variable Record (Name, Value); the record set is the
  sequence of records in file order.
\<close>

datatype Record =
    DataRecord (AdSystemDomain: string) (PublisherAccountID: string)
      (Relationship: RelationshipType) (CertificationAuthorityID: "string option")
  | VariableRecord (Name: string) (Val: string)

type_synonym Records = "Record list"

text \<open>
  Modelled from the spec: the string operations section 4.2 relies on, for the missing
  \<^verbatim>\<open>parseRecords\<close>: trimming of surrounding white space, conversion to upper case (ASCII
  letters), and splitting on a separator.
\<close>

definition isSpace :: "char \<Rightarrow> bool" where
  "isSpace c = (c \<in> set [CHR '' '', CHR 0x09, LF, CHR 0x0B, CHR 0x0C, CR])"

definition TrimSpace :: "string \<Rightarrow> string" where
  "TrimSpace s = rev (dropWhile isSpace (rev (dropWhile isSpace s)))"

definition ToUpper :: "string \<Rightarrow> string" where
  "ToUpper s =
     map (\<lambda>c. let n = (of_char c :: nat) in if 97 \<le> n \<and> n \<le> 122 then char_of (n - 32) else c) s"

text \<open>Splitting at every occurrence of a separator (at least one field, as \<^verbatim>\<open>strings.Split\<close>).\<close>

fun fields_acc :: "char \<Rightarrow> string \<Rightarrow> string \<Rightarrow> string list" where
  "fields_acc sep acc [] = [rev acc]"
| "fields_acc sep acc (c # cs) =
     (if c = sep then rev acc # fields_acc sep [] cs else fields_acc sep (c # acc) cs)"

definition Split :: "string \<Rightarrow> char \<Rightarrow> string list" where
  "Split s sep = fields_acc sep [] s"

text \<open>
  Modelled from the spec: the Data Record grammar of section 4.2: split the line on commas,
  trim each field, require at least three fields, take an optional fourth as the
  certification authority, and discard the line unless the third field is DIRECT or
  RESELLER up to letter case.
\<close>

definition parseDataRecord :: "string \<Rightarrow> Record list" where
  "parseDataRecord l =
     (let fs = map TrimSpace (Split l (CHR '',''))
      in if length fs < 3 then []
         else
           let cert = (if length fs \<ge> 4 then Some (fs ! 3) else None)
           in if ToUpper (fs ! 2) = ''DIRECT'' then [DataRecord (fs ! 0) (fs ! 1) DIRECT cert]
              else if ToUpper (fs ! 2) = ''RESELLER'' then [DataRecord (fs ! 0) (fs ! 1) RESELLER cert]
              else [])"

text \<open>
  Modelled from the spec: one line of section 4.2 (the body of \<^verbatim>\<open>parseRecords\<close>, which is
  missing). The line is trimmed; a blank line or a line starting with \<open>#\<close> gives no record.
  Otherwise the line is split at its first \<open>=\<close>. Without an \<open>=\<close>, or when the left-hand side
  holds commas with fewer than three comma-delimited fields, the Data Record grammar is
  tried on the line. When the left-hand side has no comma and is a bare token (non-empty,
  no white space inside), the line is a Variable Record: the name in upper case, the value
  trimmed. Every other line is discarded.
\<close>

definition parseLine :: "string \<Rightarrow> Record list" where
  "parseLine line =
     (let l = TrimSpace line
      in if l = [] \<or> hd l = CHR ''#'' then []
         else if CHR ''='' \<notin> set l then parseDataRecord l
         else
           let lhs = TrimSpace (takeWhile (\<lambda>c. c \<noteq> CHR ''='') l);
               rhs = drop 1 (dropWhile (\<lambda>c. c \<noteq> CHR ''='') l)
           in if CHR '','' \<in> set lhs then
                (if length (Split lhs (CHR '','')) < 3 then parseDataRecord l else [])
              else if lhs \<noteq> [] \<and> \<not> list_ex isSpace lhs then
                [VariableRecord (ToUpper lhs) (TrimSpace rhs)]
              else [])"

text \<open>
  Modelled from the spec: \<^verbatim>\<open>parseRecords\<close> (missing from the source) turns the ordered lines
  into the ordered record sequence and never fails.
\<close>

definition parseRecords :: "string list \<Rightarrow> Records" where
  "parseRecords lines = concat (map parseLine lines)"

text \<open>
  ParseBody returns Go's pair \<^verbatim>\<open>(*Records, error)\<close>: \<open>None\<close> is \<^verbatim>\<open>nil\<close>.
\<close>

definition ParseBody :: "byte list \<Rightarrow> Records option \<times> scan_error option" where
  "ParseBody b =
     (case scan_lines (NewScanner b) [] of
        (lines, scanner) \<Rightarrow>
          (case Err scanner of
             Some e \<Rightarrow> (None, Some e)
           | None \<Rightarrow> (Some (parseRecords lines), None)))"

subsection \<open>Splitting on the pattern of the specification\<close>

text \<open>
  The specification's reference for the Line Splitter: split the input on \<^verbatim>\<open>\r?\n|\r\<close>, that
  is, a boundary at each lone LF, each CR LF pair and each lone CR; a final fragment without
  terminator is the last line, and the empty input has no line.
\<close>

fun drop_boundary :: "byte list \<Rightarrow> byte list" where
  "drop_boundary (c # d # r) = (if c = CR \<and> d = LF then r else d # r)"
| "drop_boundary [c] = []"
| "drop_boundary [] = []"

definition not_eol :: "byte \<Rightarrow> bool" where
  "not_eol c = (c \<noteq> CR \<and> c \<noteq> LF)"

lemma length_drop_boundary: "length (drop_boundary ys) \<le> length ys"
  by (induction ys rule: drop_boundary.induct) auto

function pattern_lines :: "byte list \<Rightarrow> string list" where
  "pattern_lines [] = []"
| "pattern_lines (x # xs) =
     takeWhile not_eol (x # xs) # pattern_lines (drop_boundary (dropWhile not_eol (x # xs)))"
  by pat_completeness auto
termination
proof (relation "measure length", goal_cases)
  case 1
  show ?case by simp
next
  case (2 x xs)
  have "length (drop_boundary (dropWhile not_eol (x # xs))) < length (x # xs)"
  proof (cases "dropWhile not_eol (x # xs)")
    case Nil
    then show ?thesis by simp
  next
    case (Cons y ys)
    have "length (drop_boundary (y # ys)) \<le> length ys"
      by (cases ys) auto
    moreover have "length (y # ys) \<le> length (x # xs)"
      using length_dropWhile_le [of not_eol "x # xs"] Cons by simp
    ultimately show ?thesis using Cons by simp
  qed
  then show ?case by simp
qed

subsection \<open>The state of the scanner and the rest of the input\<close>

text \<open>
  Notions used to relate the scanner to the split on the pattern: the bytes the scanner has
  still to deliver (buffered and unread), the invariant of its fields, whether the input
  has a CR directly followed by LF, and what one successful call of \<^verbatim>\<open>Scan\<close> achieves.
  After a token \<open>t\<close> the remaining input \<open>b'\<close> continues the split of \<open>b\<close>, except that
  an LF cut off from its CR stays at the front of \<open>b'\<close>.
\<close>

definition remaining :: "scanner \<Rightarrow> byte list" where
  "remaining s = window s @ src s"

definition scanner_inv :: "scanner \<Rightarrow> bool" where
  "scanner_inv s =
     (start s + length (window s) \<le> buf_len s \<and> buf_len s \<le> MaxScanTokenSize \<and>
      (scan_err s = None \<or>
       (scan_err s = Some EOF \<and> src s = [] \<and> start s + length (window s) < buf_len s)))"

fun has_crlf :: "byte list \<Rightarrow> bool" where
  "has_crlf (c # d # r) = ((c = CR \<and> d = LF) \<or> has_crlf (d # r))"
| "has_crlf [c] = False"
| "has_crlf [] = False"

definition lines_step :: "byte list \<Rightarrow> string \<Rightarrow> byte list \<Rightarrow> bool" where
  "lines_step b t b' =
     (pattern_lines b = t # pattern_lines b' \<or>
      (case b' of [] \<Rightarrow> False | c # r \<Rightarrow> c = LF \<and> pattern_lines b = t # pattern_lines r))"

definition Scan_ok :: "scanner \<Rightarrow> bool \<times> scanner \<Rightarrow> bool" where
  "Scan_ok s r =
     (if fst r then
        scanner_inv (snd r) \<and> lines_step (remaining s) (Text (snd r)) (remaining (snd r)) \<and>
        length (Text (snd r)) < MaxScanTokenSize \<and>
        (if src s = [] \<or> \<not> has_crlf (remaining s)
         then pattern_lines (remaining s) = Text (snd r) # pattern_lines (remaining (snd r)) \<and>
              (src (snd r) = [] \<or> \<not> has_crlf (remaining (snd r)))
         else True)
      else
        (remaining s = [] \<and> scan_err (snd r) = Some EOF) \<or>
        (scan_err (snd r) = Some ErrTooLong \<and> remaining s \<noteq> [] \<and>
         MaxScanTokenSize \<le> length (takeWhile not_eol (remaining s))))"

text \<open>A scanner whose buffer of \<open>k\<close> bytes holds the first \<open>k\<close> bytes of the input, none consumed.\<close>

definition filled :: "nat \<Rightarrow> byte list \<Rightarrow> scanner" where
  "filled k b = \<lparr>src = drop k b, buf_len = k, start = 0, window = take k b, tok = None,
                 scan_err = None\<rparr>"

section \<open>The crawl engine: Get (adstxt.go, lines 14-71)\<close>

text \<open>
  Modelled from the spec: the Request of section 3 (its Go declaration is missing): the
  advertised domain and the URL of the ads.txt file.
\<close>

record Request =
  Domain :: string
  URL :: string

text \<open>
  Get receives a pointer to the caller's Request and stores that pointer in the Response.
  Pointers are references into a heap of Requests, so that writing through the pointer
  and handing it on are visible in the model.
\<close>

type_synonym ref = nat

text \<open>Of Go's \<^verbatim>\<open>http.Response\<close>, Get itself reads \<^verbatim>\<open>StatusCode\<close> and \<^verbatim>\<open>Status\<close>.\<close>

record http_response =
  StatusCode :: int
  Status :: string
  Header :: "(string \<times> string) list"
  Body :: "byte list"

text \<open>
  Errors: the two errors Get builds with \<^verbatim>\<open>fmt.Errorf\<close> from the response status, the domain
  and the URL (the format strings \<^verbatim>\<open>errHTTPClientError\<close> and \<^verbatim>\<open>errHTTPGeneralError\<close> are
  declared elsewhere), an error of the scanner handed on from ParseBody, and the errors the
  crawler's own methods report. A Go \<^verbatim>\<open>error\<close> value is an \<open>error option\<close>, \<^verbatim>\<open>nil\<close> being \<open>None\<close>.
\<close>

datatype error =
    HTTPClientError string string string
  | HTTPGeneralError string string string
  | ScanError scan_error
  | CrawlerError string

text \<open>A point in time, in nanoseconds since the epoch, UTC.\<close>

type_synonym Time = int

text \<open>\<^verbatim>\<open>t.AddDate(0, 0, days)\<close> on a UTC time: whole days of 24 hours.\<close>

definition AddDays :: "Time \<Rightarrow> int \<Rightarrow> Time" where
  "AddDays t days = t + days * 86400 * 1000000000"

text \<open>
  Modelled from the spec: the Response of section 3 (its Go declaration is missing); the
  fields are those Get assigns: the pointer to the Request, the parsed records and the
  expiry time.
\<close>

record Response =
  Request :: ref
  Records :: "Records option"
  Expires :: Time

text \<open>
  The crawler returned by \<^verbatim>\<open>newCrawler\<close> and its methods are not part of the examined
  source; they are parameters of the model, each returning Go's pair of a value and an
  error. \<open>sendRequest\<close> is the network: its answer may depend on the fetches made so far
  (the first argument) and on the Request sent. \<open>Now\<close> is what \<^verbatim>\<open>time.Now().UTC()\<close> returns
  when the Response is built.
\<close>

record crawler =
  sendRequest :: "Request list \<Rightarrow> Request \<Rightarrow> http_response \<times> error option"
  handleRedirect :: "Request \<Rightarrow> http_response \<Rightarrow> string \<times> error option"
  readBody :: "Request \<Rightarrow> http_response \<Rightarrow> byte list \<times> error option"
  parseExpires :: "http_response \<Rightarrow> Time \<times> error option"
  Now :: Time

text \<open>
  The state Get works on: the heap of Requests, and the log of the fetches made, each
  entry being the Request as it was when it was sent.
\<close>

record world =
  heap :: "ref \<Rightarrow> Request"
  fetches :: "Request list"

text \<open>
  One iteration of the \<^verbatim>\<open>for\<close> loop of Get: \<open>Inl\<close> is a \<^verbatim>\<open>return\<close> with Go's pair
  \<^verbatim>\<open>(*Response, error)\<close>, \<open>Inr\<close> goes round the loop again. The deferred
  \<^verbatim>\<open>res.Body.Close()\<close> calls run when Get returns and touch only the bodies of the transport.
\<close>

definition Get_iter ::
  "crawler \<Rightarrow> ref \<Rightarrow> world \<Rightarrow> (world \<times> Response option \<times> error option) + world" where
  "Get_iter c req w =
     (case sendRequest c (fetches w) (heap w req) of
        (res, err) \<Rightarrow>
          let w1 = w\<lparr>fetches := fetches w @ [heap w req]\<rparr>
          in if err \<noteq> None then Inl (w1, None, err)
             else if 300 \<le> StatusCode res \<and> StatusCode res < 400 then
               (case handleRedirect c (heap w1 req) res of
                  (redirect, err) \<Rightarrow>
                    if err \<noteq> None then Inl (w1, None, err)
                    else Inr (w1\<lparr>heap := (heap w1)(req := (heap w1 req)\<lparr>URL := redirect\<rparr>)\<rparr>))
             else if 400 \<le> StatusCode res \<and> StatusCode res < 500 then
               Inl (w1, None,
                    Some (HTTPClientError (Status res) (Domain (heap w1 req)) (URL (heap w1 req))))
             else if StatusCode res = 200 then
               (case readBody c (heap w1 req) res of
                  (body, err) \<Rightarrow>
                    if err \<noteq> None then Inl (w1, None, err)
                    else
                      (case ParseBody body of
                         (records, err) \<Rightarrow>
                           if err \<noteq> None then Inl (w1, None, map_option ScanError err)
                           else
                             let r = \<lparr>Request = req, Records = records,
                                      Expires = AddDays (Now c) 7\<rparr>
                             in (case parseExpires c res of
                                   (expires, err) \<Rightarrow>
                                     Inl (w1,
                                          Some (if err = None then r\<lparr>Expires := expires\<rparr> else r),
                                          None))))
             else
               Inl (w1, None,
                    Some (HTTPGeneralError (Status res) (Domain (heap w1 req)) (URL (heap w1 req)))))"

text \<open>
  Get is the loop; it has no exit other than the returns of an iteration, so it is a
  partial function: \<open>None\<close> means that Get does not return.
\<close>

partial_function (option) Get ::
  "crawler \<Rightarrow> ref \<Rightarrow> world \<Rightarrow> (world \<times> Response option \<times> error option) option" where
  "Get c req w = (case Get_iter c req w of Inl r \<Rightarrow> Some r | Inr w' \<Rightarrow> Get c req w')"

text \<open>The world an iteration leaves behind, whether it returns or goes on.\<close>

definition world_after :: "(world \<times> Response option \<times> error option) + world \<Rightarrow> world" where
  "world_after x = (case x of Inl (w, r) \<Rightarrow> w | Inr w \<Rightarrow> w)"

text \<open>
  A network that answers every fetch with a redirect whose target the crawler can extract.
\<close>

definition always_redirects :: "crawler \<Rightarrow> bool" where
  "always_redirects c =
     (\<forall>lg r. snd (sendRequest c lg r) = None \<and>
             300 \<le> StatusCode (fst (sendRequest c lg r)) \<and>
             StatusCode (fst (sendRequest c lg r)) < 400 \<and>
             snd (handleRedirect c r (fst (sendRequest c lg r))) = None)"

subsection \<open>Crawlers for the examples\<close>

text \<open>
  Concrete crawlers on which the theorems about Get are exercised. A scripted crawler answers
  the k-th fetch with the k-th response of its script and reports a transport error after
  the script has ended; it takes the redirect target from the \<open>Location\<close> header, hands
  out the body of the response, and accepts an \<open>Expires\<close> header as the expiry signal.
\<close>

definition no_response :: http_response where
  "no_response = \<lparr>StatusCode = 0, Status = [], Header = [], Body = []\<rparr>"

definition example_expiry :: Time where
  "example_expiry = 1700000000000000000"

definition scripted_crawler :: "http_response list \<Rightarrow> crawler" where
  "scripted_crawler script =
     \<lparr>sendRequest = (\<lambda>lg r. if length lg < length script then (script ! length lg, None)
                              else (no_response, Some (CrawlerError ''connection refused''))),
      handleRedirect = (\<lambda>r res. case map_of (Header res) ''Location'' of
                                   Some u \<Rightarrow> (u, None)
                                 | None \<Rightarrow> ([], Some (CrawlerError ''no Location header''))),
      readBody = (\<lambda>r res. (Body res, None)),
      parseExpires = (\<lambda>res. case map_of (Header res) ''Expires'' of
                               Some v \<Rightarrow> (example_expiry, None)
                             | None \<Rightarrow> (0, Some (CrawlerError ''no Expires header''))),
      Now = 1600000000000000000\<rparr>"

text \<open>A crawler whose network answers every fetch with a redirect back to the same URL.\<close>

definition redirecting_crawler :: crawler where
  "redirecting_crawler =
     (scripted_crawler [])\<lparr>sendRequest :=
        (\<lambda>lg r. (\<lparr>StatusCode = 301, Status = ''301 Moved Permanently'',
                    Header = [(''Location'', URL r)], Body = []\<rparr>, None))\<rparr>"

definition example_request :: Request where
  "example_request = \<lparr>Domain = ''example.com'', URL = ''http://example.com/ads.txt''\<rparr>"

definition example_world :: world where
  "example_world = \<lparr>heap = (\<lambda>p. example_request), fetches = []\<rparr>"

definition response_with :: "int \<Rightarrow> string \<Rightarrow> (string \<times> string) list \<Rightarrow> http_response" where
  "response_with code status headers =
     \<lparr>StatusCode = code, Status = status, Header = headers,
      Body = ''example.com, 1234, DIRECT'' @ [LF]\<rparr>"

section \<open>Properties of ParseBody\<close>

text \<open>
  C2. Parsing the bytes \<^verbatim>\<open>example.com, 1234, DIRECT\n#comment\n\nCONTACT=adops@example.com\n\<close>
  yields exactly two records in order: the Data Record (example.com, 1234, DIRECT, no
  certification authority) and the Variable Record CONTACT = adops@example.com. The scanner
  hands four lines to the record parser, and the comment line and the blank line contribute
  no record.
\<close>

theorem C2_parse_example:
  "ParseBody (''example.com, 1234, DIRECT'' @ [LF] @ ''#comment'' @ [LF] @ [LF]
              @ ''CONTACT=adops@example.com'' @ [LF])
     = (Some [DataRecord ''example.com'' ''1234'' DIRECT None,
              VariableRecord ''CONTACT'' ''adops@example.com''], None)
   \<and> fst (scan_lines (NewScanner (''example.com, 1234, DIRECT'' @ [LF] @ ''#comment'' @ [LF] @ [LF]
              @ ''CONTACT=adops@example.com'' @ [LF])) [])
     = [''example.com, 1234, DIRECT'', ''#comment'', [], ''CONTACT=adops@example.com'']
   \<and> parseLine ''#comment'' = []
   \<and> parseLine [] = []"
  by code_simp

subsection \<open>The scanner against the split on the pattern\<close>

lemma IndexAny_no_eol:
  "\<forall>x\<in>set d. not_eol x \<Longrightarrow> IndexAny d [CR, LF] = None"
  by (induction d) (auto simp: not_eol_def)

lemma IndexAny_eol:
  "\<forall>x\<in>set tw. not_eol x \<Longrightarrow> \<not> not_eol c \<Longrightarrow> IndexAny (tw @ c # rest) [CR, LF] = Some (length tw)"
  by (induction tw) (auto simp: not_eol_def)

lemma split_no_eol:
  "\<forall>x\<in>set d. not_eol x \<Longrightarrow>
     split d atEOF = (if atEOF \<and> d \<noteq> [] then (length d, Some d, None) else (0, None, None))"
  by (simp add: split_def IndexAny_no_eol)

lemma split_eol:
  assumes "\<forall>x\<in>set tw. not_eol x" and "\<not> not_eol c"
  shows "split (tw @ c # rest) atEOF =
           (length tw + 1 + length rest - length (drop_boundary (c # rest)), Some tw, None)"
proof -
  have idx: "IndexAny (tw @ c # rest) [CR, LF] = Some (length tw)"
    using assms by (rule IndexAny_eol)
  show ?thesis
  proof (cases rest)
    case Nil
    then show ?thesis using idx assms(2) by (auto simp: split_def not_eol_def)
  next
    case (Cons d r)
    then show ?thesis using idx assms(2)
      by (auto simp: split_def not_eol_def nth_append)
  qed
qed

lemma drop_split_eol:
  "drop (length tw + 1 + length rest - length (drop_boundary (c # rest))) (tw @ c # rest)
     = drop_boundary (c # rest)"
proof (cases rest)
  case Nil
  then show ?thesis by simp
next
  case (Cons d r)
  then show ?thesis by auto
qed

lemma advance_le:
  "length tw + 1 + length rest - length (drop_boundary (c # rest)) \<le> length (tw @ c # rest)"
  by simp

lemma advance_plus:
  "length tw + 1 + length rest - length (drop_boundary (c # rest)) + length (drop_boundary (c # rest))
     = length tw + 1 + length rest"
  using length_drop_boundary [of "c # rest"] by simp

lemma eol_cases:
  obtains (none) "\<forall>x\<in>set w. not_eol x"
  | (some) tw c rest where "w = tw @ c # rest" and "\<forall>x\<in>set tw. not_eol x" and "\<not> not_eol c"
proof (cases "\<exists>x\<in>set w. \<not> not_eol x")
  case True
  from split_list_first_prop [OF this] obtain ys x zs
    where "w = ys @ x # zs" and "\<not> not_eol x" and "\<forall>y\<in>set ys. \<not> \<not> not_eol y" by blast
  then show ?thesis using some by simp
next
  case False
  then show ?thesis using none by simp
qed

lemma pattern_lines_unfold:
  "b \<noteq> [] \<Longrightarrow>
     pattern_lines b = takeWhile not_eol b # pattern_lines (drop_boundary (dropWhile not_eol b))"
  by (cases b) simp_all

lemma pattern_lines_no_eol:
  assumes "\<forall>x\<in>set d. not_eol x" and "d \<noteq> []"
  shows "pattern_lines d = [d]"
proof -
  from assms(1) have dw: "dropWhile not_eol d = []" and tw: "takeWhile not_eol d = d"
    by simp_all
  have "pattern_lines d = takeWhile not_eol d # pattern_lines (drop_boundary (dropWhile not_eol d))"
    using assms(2) by (rule pattern_lines_unfold)
  then show ?thesis
    by (simp only: dw tw drop_boundary.simps pattern_lines.simps)
qed

lemma pattern_lines_eol:
  assumes "\<forall>x\<in>set tw. not_eol x" and "\<not> not_eol c"
  shows "pattern_lines (tw @ c # rest) = tw # pattern_lines (drop_boundary (c # rest))"
proof -
  have "takeWhile not_eol (tw @ c # rest) = tw"
    using assms by (simp add: takeWhile_tail)
  moreover have "dropWhile not_eol (tw @ c # rest) = c # rest"
    using assms by (simp add: dropWhile_append3) 
  ultimately show ?thesis by (simp add: pattern_lines_unfold)
qed

lemma pattern_lines_length:
  "l \<in> set (pattern_lines b) \<Longrightarrow> length l \<le> length b"
proof (induction b arbitrary: l rule: pattern_lines.induct)
  case 1
  then show ?case by simp
next
  case (2 x xs)
  from "2.prems" have "l = takeWhile not_eol (x # xs) \<or>
      l \<in> set (pattern_lines (drop_boundary (dropWhile not_eol (x # xs))))"
    by simp
  then show ?case
  proof
    assume "l = takeWhile not_eol (x # xs)"
    then show ?thesis using length_takeWhile_le [of not_eol "x # xs"] by simp
  next
    assume "l \<in> set (pattern_lines (drop_boundary (dropWhile not_eol (x # xs))))"
    from "2.IH" [OF this]
    have "length l \<le> length (drop_boundary (dropWhile not_eol (x # xs)))" .
    also have "\<dots> \<le> length (dropWhile not_eol (x # xs))" by (rule length_drop_boundary)
    also have "\<dots> \<le> length (x # xs)" by (rule length_dropWhile_le)
    finally show ?thesis .
  qed
qed

lemma has_crlf_append: "has_crlf ys \<Longrightarrow> has_crlf (xs @ ys)"
proof (induction xs)
  case Nil
  then show ?case by simp
next
  case (Cons x xs)
  then have "has_crlf (xs @ ys)" by simp
  then show ?case by (cases "xs @ ys") auto
qed

lemma has_crlf_drop_boundary: "has_crlf (drop_boundary ys) \<Longrightarrow> has_crlf ys"
proof (cases ys rule: drop_boundary.cases)
  case (1 c d r)
  assume h: "has_crlf (drop_boundary ys)"
  show ?thesis
  proof (cases "c = CR \<and> d = LF")
    case True
    with 1 show ?thesis by simp
  next
    case False
    with 1 h show ?thesis by auto
  qed
qed simp_all


lemma drop_boundary_append:
  "drop_boundary (c # rest @ ys) = drop_boundary (c # rest) @ ys \<or>
   (rest = [] \<and> c = CR \<and> (\<exists>r. ys = LF # r \<and> drop_boundary (c # rest @ ys) = r))"
proof (cases rest)
  case Nil
  then show ?thesis by (cases ys) auto
next
  case (Cons e rs)
  then show ?thesis by simp
qed

lemma try_token_eol:
  assumes "window s = tw @ c # rest" and "\<forall>x\<in>set tw. not_eol x" and "\<not> not_eol c"
  shows "try_token s =
           Inl (True, s\<lparr>start := start s + (length tw + 1 + length rest - length (drop_boundary (c # rest))),
                         window := drop_boundary (c # rest), tok := Some tw\<rparr>)"
proof -
  have "split (window s) (scan_err s \<noteq> None) =
      (length tw + 1 + length rest - length (drop_boundary (c # rest)), Some tw, None)"
    unfolding assms(1) using assms(2,3) by (rule split_eol)
  moreover have "drop (length tw + 1 + length rest - length (drop_boundary (c # rest))) (window s)
      = drop_boundary (c # rest)"
    unfolding assms(1) by (rule drop_split_eol)
  moreover have "\<not> length tw + 1 + length rest - length (drop_boundary (c # rest)) > length (window s)"
    unfolding assms(1) by simp
  moreover have "window s \<noteq> []" unfolding assms(1) by simp
  ultimately show ?thesis by (simp add: try_token_def)
qed

lemma try_token_no_eol:
  assumes "\<forall>x\<in>set (window s). not_eol x"
  shows "try_token s =
           (if scan_err s \<noteq> None \<and> window s \<noteq> []
            then Inl (True, s\<lparr>start := start s + length (window s), window := [],
                              tok := Some (window s)\<rparr>)
            else if window s = [] \<and> scan_err s = None then Inr s
            else Inr (s\<lparr>tok := None\<rparr>))"
  using assms by (auto simp: try_token_def split_no_eol)

lemma read_more_at_end:
  "scan_err s \<noteq> None \<Longrightarrow> read_more s = Inl (False, s\<lparr>start := 0, window := []\<rparr>)"
  by (simp add: read_more_def)

lemma Read_ok:
  assumes "scan_err s = None" and "start s + length (window s) < buf_len s"
    and "buf_len s \<le> MaxScanTokenSize"
  shows "scanner_inv (Read s) \<and> remaining (Read s) = remaining s \<and>
         (src s = [] \<longrightarrow> src (Read s) = [])"
proof (cases "src s = []")
  case True
  with assms have "Read s = s\<lparr>scan_err := Some EOF\<rparr>"
    by (simp add: Read_def setErr_def)
  with True assms show ?thesis by (simp add: scanner_inv_def remaining_def)
next
  case False
  let ?n = "min (buf_len s - (start s + length (window s))) (length (src s))"
  from False assms(2) have n: "0 < ?n" by simp
  then have "Read s = s\<lparr>window := window s @ take ?n (src s), src := drop ?n (src s)\<rparr>"
    using False by (simp add: Read_def Let_def)
  with assms False show ?thesis by (simp add: scanner_inv_def remaining_def)
qed

lemma read_more_cases:
  assumes inv: "scanner_inv s" and err: "scan_err s = None"
  shows "(\<exists>s2. read_more s = Inr s2 \<and> scanner_inv s2 \<and> remaining s2 = remaining s \<and>
               (src s = [] \<longrightarrow> src s2 = []))
       \<or> (\<exists>s'. read_more s = Inl (False, s') \<and> scan_err s' = Some ErrTooLong \<and>
               MaxScanTokenSize \<le> length (window s))"
proof -
  let ?shift = "start s > 0 \<and> (start s + length (window s) = buf_len s \<or> start s > buf_len s div 2)"
  let ?s1 = "if ?shift then s\<lparr>start := 0\<rparr> else s"
  from inv have bl: "start s + length (window s) \<le> buf_len s" "buf_len s \<le> MaxScanTokenSize"
    by (simp_all add: scanner_inv_def)
  have s1: "scan_err ?s1 = None" "window ?s1 = window s" "src ?s1 = src s" "buf_len ?s1 = buf_len s"
    "remaining ?s1 = remaining s" "start ?s1 \<le> start s"
    using err by (simp_all add: remaining_def)
  have rm: "read_more s =
      (if start ?s1 + length (window ?s1) = buf_len ?s1 then
         (if buf_len ?s1 \<ge> MaxScanTokenSize then Inl (False, setErr ?s1 ErrTooLong)
          else Inr (Read (?s1\<lparr>buf_len := min (if buf_len ?s1 * 2 = 0 then startBufSize
                                                  else buf_len ?s1 * 2) MaxScanTokenSize,
                              start := 0\<rparr>)))
       else Inr (Read ?s1))"
    using err by (simp add: read_more_def Let_def)
  show ?thesis
  proof (cases "start ?s1 + length (window ?s1) = buf_len ?s1")
    case full: True
    have st0: "start ?s1 = 0"
    proof (cases ?shift)
      case True
      then show ?thesis by simp
    next
      case False
      with full bl show ?thesis by (auto split: if_splits)
    qed
    with full s1 have len: "length (window s) = buf_len s" by simp
    show ?thesis
    proof (cases "buf_len s \<ge> MaxScanTokenSize")
      case True
      with rm full s1 have "read_more s = Inl (False, setErr ?s1 ErrTooLong)" by simp
      moreover have "scan_err (setErr ?s1 ErrTooLong) = Some ErrTooLong"
        using s1(1) by (simp add: setErr_def)
      ultimately show ?thesis using True len by auto
    next
      case False
      let ?s2 = "?s1\<lparr>buf_len := min (if buf_len ?s1 * 2 = 0 then startBufSize
                                        else buf_len ?s1 * 2) MaxScanTokenSize,
                      start := 0\<rparr>"
      from rm full False s1 have r: "read_more s = Inr (Read ?s2)" by simp
      have "scan_err ?s2 = None" using err by simp
      moreover have "start ?s2 + length (window ?s2) < buf_len ?s2"
        using False len by (simp add: startBufSize_def MaxScanTokenSize_def)
      moreover have "buf_len ?s2 \<le> MaxScanTokenSize" by simp
      ultimately have "scanner_inv (Read ?s2) \<and> remaining (Read ?s2) = remaining ?s2 \<and>
         (src ?s2 = [] \<longrightarrow> src (Read ?s2) = [])" by (rule Read_ok)
      moreover have "remaining ?s2 = remaining s" "src ?s2 = src s"
        by (simp_all add: remaining_def)
      ultimately show ?thesis using r by simp
    qed
  next
    case notfull: False
    with rm have r: "read_more s = Inr (Read ?s1)" by simp
    have "start ?s1 + length (window ?s1) < buf_len ?s1"
      using notfull bl by (auto split: if_splits)
    with s1(1) have "scanner_inv (Read ?s1) \<and> remaining (Read ?s1) = remaining ?s1 \<and>
         (src ?s1 = [] \<longrightarrow> src (Read ?s1) = [])"
      using bl(2) s1(4) by (intro Read_ok) simp_all
    with s1 r show ?thesis by simp
  qed
qed

lemma Scan_ok_cong:
  "remaining s2 = remaining s \<Longrightarrow> (src s = [] \<longrightarrow> src s2 = []) \<Longrightarrow> Scan_ok s2 r \<Longrightarrow> Scan_ok s r"
  by (auto simp: Scan_ok_def split: if_splits)


lemma Scan_token_ok:
  assumes inv: "scanner_inv s"
    and w: "window s = tw @ c # rest" "\<forall>x\<in>set tw. not_eol x" "\<not> not_eol c"
  shows "Scan_ok s (Scan s)"
proof -
  let ?adv = "length tw + 1 + length rest - length (drop_boundary (c # rest))"
  let ?s' = "s\<lparr>start := start s + ?adv, window := drop_boundary (c # rest), tok := Some tw\<rparr>"
  from try_token_eol [OF w] have sc: "Scan s = (True, ?s')"
    by (simp add: Scan.simps [of s])
  have inv': "scanner_inv ?s'"
    using inv advance_plus [of tw rest c] by (simp add: scanner_inv_def w(1))
  have tl: "length tw < MaxScanTokenSize"
    using inv by (simp add: scanner_inv_def w(1))
  have rem: "remaining s = tw @ c # rest @ src s" and rem': "remaining ?s' = drop_boundary (c # rest) @ src s"
    by (simp_all add: remaining_def w(1))
  have pl: "pattern_lines (remaining s) = tw # pattern_lines (drop_boundary (c # rest @ src s))"
    unfolding rem using w(2,3) by (rule pattern_lines_eol)
  from drop_boundary_append [of c rest "src s"]
  show ?thesis
  proof
    assume same: "drop_boundary (c # rest @ src s) = drop_boundary (c # rest) @ src s"
    with pl rem' have eq: "pattern_lines (remaining s) = tw # pattern_lines (remaining ?s')"
      by simp
    have "\<not> has_crlf (remaining s) \<Longrightarrow> \<not> has_crlf (remaining ?s')"
    proof
      assume "\<not> has_crlf (remaining s)" and "has_crlf (remaining ?s')"
      then have "has_crlf (drop_boundary (c # rest @ src s))" using same rem' by simp
      then have "has_crlf (c # rest @ src s)" by (rule has_crlf_drop_boundary)
      then have "has_crlf (tw @ c # rest @ src s)" by (rule has_crlf_append)
      with \<open>\<not> has_crlf (remaining s)\<close> rem show False by simp
    qed
    with eq inv' sc tl show ?thesis
      by (auto simp: Scan_ok_def lines_step_def Text_def)
  next
    assume "rest = [] \<and> c = CR \<and> (\<exists>r. src s = LF # r \<and> drop_boundary (c # rest @ src s) = r)"
    then obtain r where slip: "rest = []" "c = CR" "src s = LF # r"
      "drop_boundary (c # rest @ src s) = r" by blast
    from pl slip have "pattern_lines (remaining s) = tw # pattern_lines r" by simp
    moreover from rem' slip have "remaining ?s' = LF # r" by simp
    ultimately have ls: "lines_step (remaining s) tw (remaining ?s')"
      by (simp add: lines_step_def)
    have "has_crlf (tw @ CR # LF # r)" by (rule has_crlf_append) simp
    with rem slip have "has_crlf (remaining s)" by simp
    with ls inv' sc slip tl show ?thesis
      by (simp add: Scan_ok_def Text_def)
  qed
qed

lemma Scan_sound: "scanner_inv s \<Longrightarrow> Scan_ok s (Scan s)"
proof (induction s rule: Scan.induct)
  case (1 s)
  note inv = "1.prems"
  show ?case
  proof (cases rule: eol_cases [of "window s"])
    case (some tw c rest)
    with inv show ?thesis by (rule Scan_token_ok)
  next
    case none
    note tt = try_token_no_eol [OF none]
    show ?thesis
    proof (cases "scan_err s = None")
      case False
      with inv have eof: "scan_err s = Some EOF" "src s = []" by (auto simp: scanner_inv_def)
      show ?thesis
      proof (cases "window s = []")
        case True
        with tt eof have "try_token s = Inr (s\<lparr>tok := None\<rparr>)" by simp
        moreover have "read_more (s\<lparr>tok := None\<rparr>) = Inl (False, s\<lparr>tok := None, start := 0, window := []\<rparr>)"
          using eof by (simp add: read_more_def)
        ultimately have "Scan s = (False, s\<lparr>tok := None, start := 0, window := []\<rparr>)"
          by (simp add: Scan.simps [of s])
        with True eof show ?thesis by (simp add: Scan_ok_def remaining_def)
      next
        case False
        let ?s' = "s\<lparr>start := start s + length (window s), window := [], tok := Some (window s)\<rparr>"
        from tt eof False have "try_token s = Inl (True, ?s')" by simp
        then have sc: "Scan s = (True, ?s')" by (simp add: Scan.simps [of s])
        have "pattern_lines (window s) = [window s]"
          using none False by (rule pattern_lines_no_eol)
        moreover have "scanner_inv ?s'" using inv eof by (simp add: scanner_inv_def)
        moreover have "length (window s) < MaxScanTokenSize"
          using inv eof by (simp add: scanner_inv_def)
        ultimately show ?thesis using sc eof
          by (simp add: Scan_ok_def remaining_def lines_step_def Text_def)
      qed
    next
      case True
      define s1 where "s1 = (if window s = [] then s else s\<lparr>tok := None\<rparr>)"
      from tt True have t1: "try_token s = Inr s1" by (simp add: s1_def)
      have s1: "scanner_inv s1" "scan_err s1 = None" "remaining s1 = remaining s"
        "src s1 = src s" "window s1 = window s"
        using inv True by (simp_all add: s1_def scanner_inv_def remaining_def)
      from read_more_cases [OF s1(1,2)]
      show ?thesis
      proof
        assume "\<exists>s2. read_more s1 = Inr s2 \<and> scanner_inv s2 \<and> remaining s2 = remaining s1 \<and>
               (src s1 = [] \<longrightarrow> src s2 = [])"
        then obtain s2 where rm: "read_more s1 = Inr s2" and inv2: "scanner_inv s2"
          and r2: "remaining s2 = remaining s1" and e2: "src s1 = [] \<longrightarrow> src s2 = []" by blast
        from t1 rm have sc: "Scan s = Scan s2" by (simp add: Scan.simps [of s])
        from "1.IH" [OF t1 rm inv2] have "Scan_ok s2 (Scan s2)" .
        then have "Scan_ok s (Scan s2)"
          using r2 e2 s1 by (intro Scan_ok_cong [of s2 s]) simp_all
        with sc show ?thesis by simp
      next
        assume "\<exists>s'. read_more s1 = Inl (False, s') \<and> scan_err s' = Some ErrTooLong \<and>
               MaxScanTokenSize \<le> length (window s1)"
        then obtain s' where rm: "read_more s1 = Inl (False, s')"
          and e: "scan_err s' = Some ErrTooLong" and long: "MaxScanTokenSize \<le> length (window s1)"
          by blast
        from t1 rm have sc: "Scan s = (False, s')" by (simp add: Scan.simps [of s])
        from long s1 have ne: "window s \<noteq> []" by (auto simp: MaxScanTokenSize_def)
        have "takeWhile not_eol (remaining s) = window s @ takeWhile not_eol (src s)"
          unfolding remaining_def using none by (simp add: takeWhile_append2)
        with long s1 have "MaxScanTokenSize \<le> length (takeWhile not_eol (remaining s))" by simp
        with sc e ne show ?thesis by (simp add: Scan_ok_def remaining_def)
      qed
    qed
  qed
qed


lemma pattern_lines_LF: "pattern_lines (LF # r) = [] # pattern_lines r"
  by (cases r) (simp_all add: not_eol_def)

lemma lines_step_filter:
  assumes "lines_step b t b'"
  shows "filter (\<lambda>l. l \<noteq> []) (pattern_lines b) = filter (\<lambda>l. l \<noteq> []) (t # pattern_lines b')"
proof (cases "pattern_lines b = t # pattern_lines b'")
  case True
  then show ?thesis by simp
next
  case False
  with assms obtain r where "b' = LF # r" and "pattern_lines b = t # pattern_lines r"
    by (auto simp: lines_step_def split: list.splits)
  then show ?thesis by (simp add: pattern_lines_LF del: pattern_lines.simps)
qed

lemma lines_step_set:
  assumes "lines_step b t b'" and "l \<in> set (pattern_lines b')" and "l \<noteq> []"
  shows "l \<in> set (pattern_lines b)"
proof (cases "pattern_lines b = t # pattern_lines b'")
  case True
  with assms(2) show ?thesis by simp
next
  case False
  with assms(1) obtain r where "b' = LF # r" and "pattern_lines b = t # pattern_lines r"
    by (auto simp: lines_step_def split: list.splits)
  with assms(2,3) show ?thesis by (simp add: pattern_lines_LF del: pattern_lines.simps)
qed

lemma scan_lines_sound:
  "scanner_inv s \<Longrightarrow>
     \<exists>ls s'. scan_lines s acc = (acc @ ls, s') \<and>
       (Err s' = None \<or>
        (Err s' = Some ErrTooLong \<and>
         list_ex (\<lambda>l. MaxScanTokenSize \<le> length l) (pattern_lines (remaining s)))) \<and>
       (if Err s' = None then
          filter (\<lambda>l. l \<noteq> []) ls = filter (\<lambda>l. l \<noteq> []) (pattern_lines (remaining s)) \<and>
          (if src s = [] \<or> \<not> has_crlf (remaining s) then ls = pattern_lines (remaining s) else True)
        else True)"
proof (induction s acc rule: scan_lines.induct)
  case (1 s acc)
  from Scan_sound [OF "1.prems"] have ok: "Scan_ok s (Scan s)" .
  obtain b s1 where sc: "Scan s = (b, s1)" by (cases "Scan s") auto
  show ?case
  proof (cases b)
    case False
    with sc have res: "scan_lines s acc = (acc, s1)" by (simp add: scan_lines.simps [of s])
    from ok sc False
    have "(remaining s = [] \<and> scan_err s1 = Some EOF) \<or>
        (scan_err s1 = Some ErrTooLong \<and> remaining s \<noteq> [] \<and>
         MaxScanTokenSize \<le> length (takeWhile not_eol (remaining s)))"
      by (simp add: Scan_ok_def)
    then show ?thesis
    proof
      assume "remaining s = [] \<and> scan_err s1 = Some EOF"
      with res show ?thesis by (simp add: Err_def)
    next
      assume a: "scan_err s1 = Some ErrTooLong \<and> remaining s \<noteq> [] \<and>
         MaxScanTokenSize \<le> length (takeWhile not_eol (remaining s))"
      then have "takeWhile not_eol (remaining s) \<in> set (pattern_lines (remaining s))"
        by (simp add: pattern_lines_unfold)
      with a have "list_ex (\<lambda>l. MaxScanTokenSize \<le> length l) (pattern_lines (remaining s))"
        by (auto simp: list_ex_iff)
      with a res show ?thesis by (simp add: Err_def)
    qed
  next
    case True
    with sc have res: "scan_lines s acc = scan_lines s1 (acc @ [Text s1])"
      by (simp add: scan_lines.simps [of s])
    from ok sc True have inv1: "scanner_inv s1"
      and step: "lines_step (remaining s) (Text s1) (remaining s1)"
      and exact: "src s = [] \<or> \<not> has_crlf (remaining s) \<Longrightarrow>
          pattern_lines (remaining s) = Text s1 # pattern_lines (remaining s1) \<and>
          (src s1 = [] \<or> \<not> has_crlf (remaining s1))"
      by (simp_all add: Scan_ok_def)
    from sc True have "(True, s1) = Scan s" by simp
    from "1.IH" [OF this refl inv1]
    obtain ls s' where r1: "scan_lines s1 (acc @ [Text s1]) = ((acc @ [Text s1]) @ ls, s')"
      and e1: "Err s' = None \<or>
        (Err s' = Some ErrTooLong \<and>
         list_ex (\<lambda>l. MaxScanTokenSize \<le> length l) (pattern_lines (remaining s1)))"
      and f1: "Err s' = None \<Longrightarrow>
          filter (\<lambda>l. l \<noteq> []) ls = filter (\<lambda>l. l \<noteq> []) (pattern_lines (remaining s1))"
      and x1: "Err s' = None \<Longrightarrow> src s1 = [] \<or> \<not> has_crlf (remaining s1) \<Longrightarrow>
          ls = pattern_lines (remaining s1)"
      by (auto split: if_splits)
    from res r1 have r: "scan_lines s acc = (acc @ (Text s1 # ls), s')" by simp
    have e: "Err s' = None \<or>
        (Err s' = Some ErrTooLong \<and>
         list_ex (\<lambda>l. MaxScanTokenSize \<le> length l) (pattern_lines (remaining s)))"
    proof (cases "Err s' = None")
      case True
      then show ?thesis by simp
    next
      case False
      with e1 obtain l where "l \<in> set (pattern_lines (remaining s1))"
        and "MaxScanTokenSize \<le> length l" and "Err s' = Some ErrTooLong"
        by (auto simp: list_ex_iff)
      moreover from this have "l \<noteq> []" by (auto simp: MaxScanTokenSize_def)
      ultimately show ?thesis using lines_step_set [OF step] by (auto simp: list_ex_iff)
    qed
    have f: "Err s' = None \<Longrightarrow>
        filter (\<lambda>l. l \<noteq> []) (Text s1 # ls) = filter (\<lambda>l. l \<noteq> []) (pattern_lines (remaining s))"
      using f1 lines_step_filter [OF step] by simp
    have x: "Err s' = None \<Longrightarrow> src s = [] \<or> \<not> has_crlf (remaining s) \<Longrightarrow>
        Text s1 # ls = pattern_lines (remaining s)"
      using exact x1 by simp
    from r e f x show ?thesis by auto
  qed
qed


lemma scan_lines_long:
  "scanner_inv s \<Longrightarrow>
     list_ex (\<lambda>l. MaxScanTokenSize \<le> length l) (pattern_lines (remaining s)) \<Longrightarrow>
     Err (snd (scan_lines s acc)) = Some ErrTooLong"
proof (induction s acc rule: scan_lines.induct)
  case (1 s acc)
  from Scan_sound [OF "1.prems"(1)] have ok: "Scan_ok s (Scan s)" .
  from "1.prems"(2) obtain l where l: "l \<in> set (pattern_lines (remaining s))"
    and long: "MaxScanTokenSize \<le> length l" by (auto simp: list_ex_iff)
  obtain b s1 where sc: "Scan s = (b, s1)" by (cases "Scan s") auto
  show ?case
  proof (cases b)
    case False
    with sc have res: "scan_lines s acc = (acc, s1)" by (simp add: scan_lines.simps [of s])
    from l have "remaining s \<noteq> []" by auto
    with ok sc False have "scan_err s1 = Some ErrTooLong" by (simp add: Scan_ok_def)
    with res show ?thesis by (simp add: Err_def)
  next
    case True
    with sc have res: "scan_lines s acc = scan_lines s1 (acc @ [Text s1])"
      by (simp add: scan_lines.simps [of s])
    from ok sc True have inv1: "scanner_inv s1"
      and step: "lines_step (remaining s) (Text s1) (remaining s1)"
      and short: "length (Text s1) < MaxScanTokenSize"
      by (simp_all add: Scan_ok_def)
    from long short have neq: "l \<noteq> Text s1" by auto
    have "l \<in> set (pattern_lines (remaining s1))"
    proof (cases "pattern_lines (remaining s) = Text s1 # pattern_lines (remaining s1)")
      case True
      with l neq show ?thesis by simp
    next
      case False
      with step obtain r where "remaining s1 = LF # r"
        and "pattern_lines (remaining s) = Text s1 # pattern_lines r"
        by (auto simp: lines_step_def split: list.splits)
      with l neq show ?thesis by (simp add: pattern_lines_LF del: pattern_lines.simps)
    qed
    with long have "list_ex (\<lambda>l. MaxScanTokenSize \<le> length l) (pattern_lines (remaining s1))"
      by (auto simp: list_ex_iff)
    moreover from sc True have "(True, s1) = Scan s" by simp
    ultimately have "Err (snd (scan_lines s1 (acc @ [Text s1]))) = Some ErrTooLong"
      using "1.IH" inv1 by blast
    with res show ?thesis by simp
  qed
qed

lemma scanner_inv_New: "scanner_inv (NewScanner b)" and remaining_New: "remaining (NewScanner b) = b"
  by (simp_all add: scanner_inv_def NewScanner_def remaining_def)

lemma scan_lines_cong: "Scan s = Scan s' \<Longrightarrow> scan_lines s acc = scan_lines s' acc"
  by (simp add: scan_lines.simps [of s] scan_lines.simps [of s'])

lemma first_fill:
  assumes "b \<noteq> []"
  shows "Scan (NewScanner b) = Scan (filled startBufSize b)"
proof -
  have "try_token (NewScanner b) = Inr (NewScanner b)"
    by (simp add: try_token_def NewScanner_def)
  moreover have "read_more (NewScanner b) = Inr (filled startBufSize b)"
    using assms
    by (simp add: read_more_def Read_def NewScanner_def filled_def startBufSize_def
          MaxScanTokenSize_def Let_def min_def)
  ultimately show ?thesis by (simp add: Scan.simps [of "NewScanner b"])
qed

lemma grow_fill:
  assumes "\<forall>x\<in>set b. not_eol x" and "0 < k" and "2 * k \<le> MaxScanTokenSize" and "2 * k \<le> length b"
  shows "Scan (filled k b) = Scan (filled (2 * k) b)"
proof -
  have "\<forall>x\<in>set (window (filled k b)). not_eol x"
    using assms(1) by (auto simp: filled_def dest: in_set_takeD)
  from try_token_no_eol [OF this] assms(2,4)
  have "try_token (filled k b) = Inr (filled k b)"
    by (simp add: filled_def)
  moreover have "read_more (filled k b) = Inr (filled (2 * k) b)"
  proof -
    have "take k b @ take k (drop k b) = take (2 * k) b"
      by (simp add: take_add [symmetric] mult_2)
    moreover have "drop k (drop k b) = drop (2 * k) b" by (simp add: mult_2)
    moreover have "min (2 * k - k) (length b - k) = k" using assms(4) by simp
    moreover have "drop k b \<noteq> []" using assms(2,4) by simp
    moreover have "min k (length b) = k" using assms(4) by simp
    ultimately show ?thesis using assms(2,3)
      by (simp add: read_more_def Read_def filled_def Let_def)
  qed
  ultimately show ?thesis by (simp add: Scan.simps [of "filled k b"])
qed

lemma full_buffer_too_long:
  assumes "\<forall>x\<in>set b. not_eol x" and "MaxScanTokenSize \<le> length b"
  shows "Scan (filled MaxScanTokenSize b) =
           (False, (filled MaxScanTokenSize b)\<lparr>scan_err := Some ErrTooLong\<rparr>)"
proof -
  have "\<forall>x\<in>set (window (filled MaxScanTokenSize b)). not_eol x"
    using assms(1) by (auto simp: filled_def dest: in_set_takeD)
  from try_token_no_eol [OF this] assms(2)
  have "try_token (filled MaxScanTokenSize b) = Inr (filled MaxScanTokenSize b)"
    by (auto simp: filled_def MaxScanTokenSize_def)
  moreover have "read_more (filled MaxScanTokenSize b) =
      Inl (False, (filled MaxScanTokenSize b)\<lparr>scan_err := Some ErrTooLong\<rparr>)"
    using assms(2) by (simp add: read_more_def filled_def setErr_def)
  ultimately show ?thesis by (simp add: Scan.simps [of "filled MaxScanTokenSize b"])
qed

lemma long_line_fails:
  assumes ne: "\<forall>x\<in>set b. not_eol x" and len: "MaxScanTokenSize \<le> length b"
  shows "scan_lines (NewScanner b) [] =
           ([], (filled MaxScanTokenSize b)\<lparr>scan_err := Some ErrTooLong\<rparr>)"
proof -
  from len have "b \<noteq> []" by (auto simp: MaxScanTokenSize_def)
  then have "Scan (NewScanner b) = Scan (filled 4096 b)"
    using first_fill by (simp add: startBufSize_def)
  also have "\<dots> = Scan (filled (2 * 4096) b)"
    using ne len by (intro grow_fill) (simp_all add: MaxScanTokenSize_def)
  also have "\<dots> = Scan (filled (2 * 8192) b)"
    using grow_fill [OF ne, of 8192] len by (simp add: MaxScanTokenSize_def)
  also have "\<dots> = Scan (filled (2 * 16384) b)"
    using grow_fill [OF ne, of 16384] len by (simp add: MaxScanTokenSize_def)
  also have "\<dots> = Scan (filled (2 * 32768) b)"
    using grow_fill [OF ne, of 32768] len by (simp add: MaxScanTokenSize_def)
  also have "\<dots> = Scan (filled MaxScanTokenSize b)"
    by (simp add: MaxScanTokenSize_def)
  also have "\<dots> = (False, (filled MaxScanTokenSize b)\<lparr>scan_err := Some ErrTooLong\<rparr>)"
    using ne len by (rule full_buffer_too_long)
  finally show ?thesis by (simp add: scan_lines.simps [of "NewScanner b"])
qed


text \<open>
  A line of 4095 bytes followed by CR LF: the first fill of the 4096-byte buffer ends with
  the CR, \<open>split\<close> is called before the end of the input is known and cuts after the CR,
  and the LF that arrives with the next read becomes an empty line of its own. The split
  on the pattern has the single line.
\<close>

lemma crlf_across_buffer_fill:
  assumes len: "length A = 4095" and ne: "\<forall>x\<in>set A. not_eol x"
  shows "fst (scan_lines (NewScanner (A @ [CR, LF])) []) = [A, []]"
    and "pattern_lines (A @ [CR, LF]) = [A]"
proof -
  let ?s0 = "\<lparr>src = [LF], buf_len = 4096, start = 0, window = A @ [CR], tok = None,
             scan_err = None\<rparr>"
  let ?s1 = "\<lparr>src = [LF], buf_len = 4096, start = 4096, window = [], tok = Some A,
             scan_err = None\<rparr>"
  let ?s2 = "\<lparr>src = [], buf_len = 4096, start = 0, window = [LF], tok = Some A,
             scan_err = None\<rparr>"
  let ?s3 = "\<lparr>src = [], buf_len = 4096, start = Suc 0, window = [], tok = Some [],
             scan_err = None\<rparr>"
  let ?s4 = "\<lparr>src = [], buf_len = 4096, start = Suc 0, window = [], tok = Some [],
             scan_err = Some EOF\<rparr>"
  let ?s5 = "\<lparr>src = [], buf_len = 4096, start = 0, window = [], tok = None,
             scan_err = Some EOF\<rparr>"
  have "filled startBufSize (A @ [CR, LF]) = ?s0"
    using len by (simp add: filled_def startBufSize_def)
  with first_fill [of "A @ [CR, LF]"] have "Scan (NewScanner (A @ [CR, LF])) = Scan ?s0"
    by simp
  moreover have "try_token ?s0 = Inl (True, ?s1)"
    using try_token_eol [of ?s0 A CR "[]"] ne len by (simp add: not_eol_def)
  ultimately have a: "Scan (NewScanner (A @ [CR, LF])) = (True, ?s1)"
    by (simp add: Scan.simps [of ?s0])
  have "try_token ?s1 = Inr ?s1" by (simp add: try_token_def)
  moreover have "read_more ?s1 = Inr ?s2"
    by (simp add: read_more_def Read_def Let_def MaxScanTokenSize_def)
  moreover have "try_token ?s2 = Inl (True, ?s3)"
    using try_token_eol [of ?s2 "[]" LF "[]"] by (simp add: not_eol_def)
  ultimately have b: "Scan ?s1 = (True, ?s3)"
    by (simp add: Scan.simps [of ?s1] Scan.simps [of ?s2])
  have "try_token ?s3 = Inr ?s3" by (simp add: try_token_def)
  moreover have "read_more ?s3 = Inr ?s4"
    by (simp add: read_more_def Read_def Let_def setErr_def)
  moreover have "try_token ?s4 = Inr (?s4\<lparr>tok := None\<rparr>)"
    by (simp add: try_token_def split_def)
  moreover have "read_more (?s4\<lparr>tok := None\<rparr>) = Inl (False, ?s5)"
    by (simp add: read_more_def)
  ultimately have c: "Scan ?s3 = (False, ?s5)"
    by (simp add: Scan.simps [of ?s3] Scan.simps [of ?s4])
  from a b c show "fst (scan_lines (NewScanner (A @ [CR, LF])) []) = [A, []]"
    by (simp add: scan_lines.simps [of "NewScanner (A @ [CR, LF])"] scan_lines.simps [of ?s1]
          scan_lines.simps [of ?s3] Text_def)
  have "pattern_lines (A @ CR # [LF]) = A # pattern_lines (drop_boundary (CR # [LF]))"
    using ne by (intro pattern_lines_eol) (simp_all add: not_eol_def)
  then show "pattern_lines (A @ [CR, LF]) = [A]" by simp
qed

lemma short_input_exact:
  assumes "length b \<le> startBufSize"
  shows "Err (snd (scan_lines (NewScanner b) [])) = None \<and>
         fst (scan_lines (NewScanner b) []) = pattern_lines b"
proof -
  define s where "s = (if b = [] then NewScanner b else filled startBufSize b)"
  have sl: "scan_lines (NewScanner b) [] = scan_lines s []"
    using first_fill [of b] by (auto simp: s_def intro: scan_lines_cong)
  have inv: "scanner_inv s" and rem: "remaining s = b" and src: "src s = []"
    using assms
    by (simp_all add: s_def scanner_inv_New remaining_New scanner_inv_def remaining_def filled_def
          NewScanner_def startBufSize_def MaxScanTokenSize_def)
  from scan_lines_sound [OF inv, of "[]"] obtain ls s'
    where r: "scan_lines s [] = (ls, s')"
      and e: "Err s' = None \<or>
        (Err s' = Some ErrTooLong \<and>
         list_ex (\<lambda>l. MaxScanTokenSize \<le> length l) (pattern_lines (remaining s)))"
      and x: "Err s' = None \<Longrightarrow> ls = pattern_lines (remaining s)"
    using src by (auto split: if_splits)
  have "\<not> list_ex (\<lambda>l. MaxScanTokenSize \<le> length l) (pattern_lines b)"
  proof
    assume "list_ex (\<lambda>l. MaxScanTokenSize \<le> length l) (pattern_lines b)"
    then obtain l where "l \<in> set (pattern_lines b)" and "MaxScanTokenSize \<le> length l"
      by (auto simp: list_ex_iff)
    with pattern_lines_length [of l b] assms show False
      by (simp add: startBufSize_def MaxScanTokenSize_def)
  qed
  with e rem have "Err s' = None" by simp
  with x r sl rem show ?thesis by simp
qed

lemma short_lines_sound:
  assumes "list_all (\<lambda>l. length l < MaxScanTokenSize) (pattern_lines b)"
  shows "Err (snd (scan_lines (NewScanner b) [])) = None \<and>
         filter (\<lambda>l. l \<noteq> []) (fst (scan_lines (NewScanner b) []))
           = filter (\<lambda>l. l \<noteq> []) (pattern_lines b) \<and>
         (\<not> has_crlf b \<longrightarrow> fst (scan_lines (NewScanner b) []) = pattern_lines b)"
proof -
  from scan_lines_sound [OF scanner_inv_New, of b "[]"] obtain ls s'
    where r: "scan_lines (NewScanner b) [] = (ls, s')"
      and e: "Err s' = None \<or>
        (Err s' = Some ErrTooLong \<and>
         list_ex (\<lambda>l. MaxScanTokenSize \<le> length l) (pattern_lines b))"
      and f: "Err s' = None \<Longrightarrow>
        filter (\<lambda>l. l \<noteq> []) ls = filter (\<lambda>l. l \<noteq> []) (pattern_lines b)"
      and x: "Err s' = None \<Longrightarrow> \<not> has_crlf b \<Longrightarrow> ls = pattern_lines b"
    by (auto simp: remaining_New split: if_splits)
  from assms have "\<not> list_ex (\<lambda>l. MaxScanTokenSize \<le> length l) (pattern_lines b)"
    by (auto simp: list_all_iff list_ex_iff)
  with e have "Err s' = None" by simp
  with r f x show ?thesis by simp
qed

lemma long_lines_fail:
  assumes "list_ex (\<lambda>l. MaxScanTokenSize \<le> length l) (pattern_lines b)"
  shows "Err (snd (scan_lines (NewScanner b) [])) = Some ErrTooLong"
  using scan_lines_long [OF scanner_inv_New, of b "[]"] assms by (simp add: remaining_New)

text \<open>
  C1 (as the code has it). For every input whose lines, as split on the pattern, are all
  shorter than 65536 bytes, the scanner ends without error and the non-empty lines it
  yields are, in order, the non-empty lines of the split on the pattern; if moreover no CR
  is directly followed by LF in the input (lines ended by LF only, by CR only, or a mixture
  of the two), the two line sequences are equal, empty lines and the final fragment
  without terminator included. For every input of at most 4096 bytes, which the scanner
  reads in one piece, the two sequences are equal whatever the terminators. An input with
  a line of 65536 bytes or more ends the scan with \<^verbatim>\<open>ErrTooLong\<close>. The empty input has no
  line.
\<close>

theorem C1_line_splitter:
  "(list_all (\<lambda>l. length l < MaxScanTokenSize) (pattern_lines b) \<longrightarrow>
      Err (snd (scan_lines (NewScanner b) [])) = None \<and>
      filter (\<lambda>l. l \<noteq> []) (fst (scan_lines (NewScanner b) []))
        = filter (\<lambda>l. l \<noteq> []) (pattern_lines b) \<and>
      (\<not> has_crlf b \<longrightarrow> fst (scan_lines (NewScanner b) []) = pattern_lines b))
   \<and> (length b \<le> startBufSize \<longrightarrow>
        Err (snd (scan_lines (NewScanner b) [])) = None \<and>
        fst (scan_lines (NewScanner b) []) = pattern_lines b)
   \<and> (list_ex (\<lambda>l. MaxScanTokenSize \<le> length l) (pattern_lines b) \<longrightarrow>
        Err (snd (scan_lines (NewScanner b) [])) = Some ErrTooLong)
   \<and> fst (scan_lines (NewScanner []) []) = []"
proof (intro conjI impI)
  assume a: "list_all (\<lambda>l. length l < MaxScanTokenSize) (pattern_lines b)"
  from short_lines_sound [OF a]
  show "Err (snd (scan_lines (NewScanner b) [])) = None"
    and "filter (\<lambda>l. l \<noteq> []) (fst (scan_lines (NewScanner b) []))
        = filter (\<lambda>l. l \<noteq> []) (pattern_lines b)"
    by simp_all
  assume "\<not> has_crlf b"
  with short_lines_sound [OF a] show "fst (scan_lines (NewScanner b) []) = pattern_lines b"
    by simp
next
  assume a: "length b \<le> startBufSize"
  from short_input_exact [OF a]
  show "Err (snd (scan_lines (NewScanner b) [])) = None"
    and "fst (scan_lines (NewScanner b) []) = pattern_lines b"
    by simp_all
next
  assume "list_ex (\<lambda>l. MaxScanTokenSize \<le> length l) (pattern_lines b)"
  then show "Err (snd (scan_lines (NewScanner b) [])) = Some ErrTooLong"
    by (rule long_lines_fail)
next
  have "length ([] :: byte list) \<le> startBufSize" by simp
  from short_input_exact [OF this] show "fst (scan_lines (NewScanner []) []) = []"
    by simp
qed

lemma mixed_terminators_pattern:
  "pattern_lines (''ab'' @ [CR, LF] @ ''cd'' @ [LF, LF, CR] @ ''e'' @ [CR] @ ''f'')
     = [''ab'', ''cd'', [], [], ''e'', ''f'']"
  by code_simp

lemma lone_terminators_pattern:
  "pattern_lines (''a'' @ [LF] @ ''b'' @ [CR] @ ''c'' @ [LF]) = [''a'', ''b'', ''c'']"
  "\<not> has_crlf (''a'' @ [LF] @ ''b'' @ [CR] @ ''c'' @ [LF])"
  by code_simp+

lemma one_long_line_pattern:
  "pattern_lines (replicate 65536 (CHR ''b'')) = [replicate 65536 (CHR ''b'')]"
  by (rule pattern_lines_no_eol) (simp_all add: not_eol_def)

text \<open>
  Three inputs: mixed terminators with a CR LF pair (short enough for one buffer fill), lone
  LF and CR terminators, and a single line of 65536 bytes.
\<close>

theorem C1_witness:
  "list_all (\<lambda>l. length l < MaxScanTokenSize)
     (pattern_lines (''ab'' @ [CR, LF] @ ''cd'' @ [LF, LF, CR] @ ''e'' @ [CR] @ ''f''))
   \<and> length (''ab'' @ [CR, LF] @ ''cd'' @ [LF, LF, CR] @ ''e'' @ [CR] @ ''f'') \<le> startBufSize
   \<and> fst (scan_lines (NewScanner (''ab'' @ [CR, LF] @ ''cd'' @ [LF, LF, CR] @ ''e'' @ [CR] @ ''f'')) [])
       = [''ab'', ''cd'', [], [], ''e'', ''f'']
   \<and> \<not> has_crlf (''a'' @ [LF] @ ''b'' @ [CR] @ ''c'' @ [LF])
   \<and> fst (scan_lines (NewScanner (''a'' @ [LF] @ ''b'' @ [CR] @ ''c'' @ [LF])) []) = [''a'', ''b'', ''c'']
   \<and> list_ex (\<lambda>l. MaxScanTokenSize \<le> length l) (pattern_lines (replicate 65536 (CHR ''b'')))
   \<and> Err (snd (scan_lines (NewScanner (replicate 65536 (CHR ''b''))) [])) = Some ErrTooLong"
  using C1_line_splitter [of "''ab'' @ [CR, LF] @ ''cd'' @ [LF, LF, CR] @ ''e'' @ [CR] @ ''f''"]
    C1_line_splitter [of "''a'' @ [LF] @ ''b'' @ [CR] @ ''c'' @ [LF]"]
    C1_line_splitter [of "replicate 65536 (CHR ''b'')"]
    mixed_terminators_pattern lone_terminators_pattern one_long_line_pattern
  by (simp add: MaxScanTokenSize_def startBufSize_def)

text \<open>
  The claim as stated fails: on 65536 bytes without a line terminator the scanner gives up
  with \<^verbatim>\<open>ErrTooLong\<close> and yields no line, whereas the split on the pattern has one line.
\<close>

theorem C1_counterexample:
  "fst (scan_lines (NewScanner (replicate 65536 (CHR ''a''))) []) = []
   \<and> pattern_lines (replicate 65536 (CHR ''a'')) = [replicate 65536 (CHR ''a'')]
   \<and> fst (scan_lines (NewScanner (replicate 65536 (CHR ''a''))) [])
       \<noteq> pattern_lines (replicate 65536 (CHR ''a''))"
proof -
  have ne: "\<forall>x\<in>set (replicate 65536 (CHR ''a'')). not_eol x"
    by (simp add: not_eol_def)
  have "MaxScanTokenSize \<le> length (replicate 65536 (CHR ''a''))"
    by (simp add: MaxScanTokenSize_def)
  from long_line_fails [OF ne this]
  have "fst (scan_lines (NewScanner (replicate 65536 (CHR ''a''))) []) = []" by simp
  moreover have "pattern_lines (replicate 65536 (CHR ''a'')) = [replicate 65536 (CHR ''a'')]"
    using ne by (rule pattern_lines_no_eol) simp
  ultimately show ?thesis by simp
qed

text \<open>
  C3 (as the code has it). For every input whose lines are all shorter than 65536 bytes,
  ParseBody returns a nil error together with the records parsed from the scanned lines;
  the record parser itself cannot fail. For every other input, that is, whenever a line has
  65536 bytes or more, ParseBody returns nil records and the scanner's error \<^verbatim>\<open>ErrTooLong\<close>.
\<close>

theorem C3_ParseBody_error:
  "(list_all (\<lambda>l. length l < MaxScanTokenSize) (pattern_lines b) \<longrightarrow>
      ParseBody b = (Some (parseRecords (fst (scan_lines (NewScanner b) []))), None))
   \<and> (list_ex (\<lambda>l. MaxScanTokenSize \<le> length l) (pattern_lines b) \<longrightarrow>
      ParseBody b = (None, Some ErrTooLong))"
proof (intro conjI impI)
  assume "list_all (\<lambda>l. length l < MaxScanTokenSize) (pattern_lines b)"
  from short_lines_sound [OF this]
  show "ParseBody b = (Some (parseRecords (fst (scan_lines (NewScanner b) []))), None)"
    by (cases "scan_lines (NewScanner b) []") (simp add: ParseBody_def)
next
  assume "list_ex (\<lambda>l. MaxScanTokenSize \<le> length l) (pattern_lines b)"
  from long_lines_fail [OF this] show "ParseBody b = (None, Some ErrTooLong)"
    by (cases "scan_lines (NewScanner b) []") (simp add: ParseBody_def)
qed

lemma malformed_line_pattern:
  "pattern_lines (''this is not a record'' @ [CR, LF] @ ''a.com, 17, reseller'' @ [LF])
     = [''this is not a record'', ''a.com, 17, reseller'']"
  by code_simp

lemma malformed_line_parse:
  "ParseBody (''this is not a record'' @ [CR, LF] @ ''a.com, 17, reseller'' @ [LF])
     = (Some [DataRecord ''a.com'' ''17'' RESELLER None], None)"
  by code_simp

lemma other_long_line_pattern:
  "pattern_lines (replicate 65536 (CHR ''y'')) = [replicate 65536 (CHR ''y'')]"
  by (rule pattern_lines_no_eol) (simp_all add: not_eol_def)

theorem C3_witness:
  "list_all (\<lambda>l. length l < MaxScanTokenSize)
     (pattern_lines (''this is not a record'' @ [CR, LF] @ ''a.com, 17, reseller'' @ [LF]))
   \<and> ParseBody (''this is not a record'' @ [CR, LF] @ ''a.com, 17, reseller'' @ [LF])
       = (Some [DataRecord ''a.com'' ''17'' RESELLER None], None)
   \<and> parseRecords (fst (scan_lines
        (NewScanner (''this is not a record'' @ [CR, LF] @ ''a.com, 17, reseller'' @ [LF])) []))
       = [DataRecord ''a.com'' ''17'' RESELLER None]
   \<and> list_ex (\<lambda>l. MaxScanTokenSize \<le> length l) (pattern_lines (replicate 65536 (CHR ''y'')))
   \<and> ParseBody (replicate 65536 (CHR ''y'')) = (None, Some ErrTooLong)"
  using C3_ParseBody_error [of "''this is not a record'' @ [CR, LF] @ ''a.com, 17, reseller'' @ [LF]"]
    C3_ParseBody_error [of "replicate 65536 (CHR ''y'')"]
    malformed_line_pattern malformed_line_parse other_long_line_pattern
  by (simp add: MaxScanTokenSize_def)

text \<open>
  The claim as stated fails: for 65536 bytes without a line terminator ParseBody returns
  nil records and the error \<^verbatim>\<open>ErrTooLong\<close>.
\<close>

theorem C3_counterexample:
  "ParseBody (replicate 65536 (CHR ''x'')) = (None, Some ErrTooLong)"
proof -
  have ne: "\<forall>x\<in>set (replicate 65536 (CHR ''x'')). not_eol x"
    by (simp add: not_eol_def)
  have "MaxScanTokenSize \<le> length (replicate 65536 (CHR ''x''))"
    by (simp add: MaxScanTokenSize_def)
  from long_line_fails [OF ne this] show ?thesis
    by (simp add: ParseBody_def Err_def)
qed

section \<open>Properties of Get\<close>

lemma Get_Inl: "Get_iter c req w = Inl r \<Longrightarrow> Get c req w = Some r"
  by (subst Get.simps) simp

lemma Get_Inr: "Get_iter c req w = Inr w' \<Longrightarrow> Get c req w = Get c req w'"
  by (subst Get.simps) simp

lemma Get_iter_Inl:
  "Get_iter c req w = Inl (w', resp, e) \<Longrightarrow>
     heap w' = heap w \<and> fetches w' = fetches w @ [heap w req] \<and>
     ((resp = None \<and> e \<noteq> None) \<or> (\<exists>r. resp = Some r \<and> Request r = req \<and> e = None))"
  by (auto simp: Get_iter_def Let_def split: prod.splits if_splits)

lemma Get_iter_Inr:
  "Get_iter c req w = Inr w' \<Longrightarrow>
     (\<exists>t. heap w' = (heap w)(req := (heap w req)\<lparr>URL := t\<rparr>)) \<and>
     fetches w' = fetches w @ [heap w req]"
  by (auto simp: Get_iter_def Let_def split: prod.splits if_splits)

lemma Get_frame:
  assumes "Get c req w = Some y"
  shows "heap (fst y) = (heap w)(req := (heap w req)\<lparr>URL := URL (heap (fst y) req)\<rparr>) \<and>
     length (fetches w) < length (fetches (fst y)) \<and>
     (length (fetches (fst y)) = length (fetches w) + 1 \<longrightarrow> heap (fst y) = heap w)"
proof (rule Get.raw_induct [OF _ assms])
  fix G c req w y
  assume IH: "\<And>c req w y. G c req w = Some y \<Longrightarrow>
     heap (fst y) = (heap w)(req := (heap w req)\<lparr>URL := URL (heap (fst y) req)\<rparr>) \<and>
     length (fetches w) < length (fetches (fst y)) \<and>
     (length (fetches (fst y)) = length (fetches w) + 1 \<longrightarrow> heap (fst y) = heap w)"
    and body: "(case Get_iter c req w of Inl r \<Rightarrow> Some r | Inr w' \<Rightarrow> G c req w') = Some y"
  show "heap (fst y) = (heap w)(req := (heap w req)\<lparr>URL := URL (heap (fst y) req)\<rparr>) \<and>
     length (fetches w) < length (fetches (fst y)) \<and>
     (length (fetches (fst y)) = length (fetches w) + 1 \<longrightarrow> heap (fst y) = heap w)"
  proof (cases "Get_iter c req w")
    case (Inl r)
    with body have "r = y" by simp
    with Inl Get_iter_Inl [of c req w "fst y" "fst (snd y)" "snd (snd y)"]
    show ?thesis by simp
  next
    case (Inr w1)
    with body have "G c req w1 = Some y" by simp
    from IH [OF this] Get_iter_Inr [OF Inr]
    show ?thesis by auto
  qed
qed


lemma always_redirects_iter:
  assumes "always_redirects c"
  shows "\<exists>w'. Get_iter c req w = Inr w'"
proof -
  from assms have "snd (sendRequest c (fetches w) (heap w req)) = None"
    and "300 \<le> StatusCode (fst (sendRequest c (fetches w) (heap w req)))"
    and "StatusCode (fst (sendRequest c (fetches w) (heap w req))) < 400"
    and "snd (handleRedirect c (heap w req) (fst (sendRequest c (fetches w) (heap w req)))) = None"
    by (simp_all add: always_redirects_def)
  then show ?thesis
    by (auto simp: Get_iter_def Let_def split: prod.splits)
qed

lemma always_redirects_no_result:
  assumes "Get c req w = Some y"
  shows "\<not> always_redirects c"
proof (rule Get.raw_induct [OF _ assms])
  fix G c req w y
  assume IH: "\<And>c req w y. G c req w = Some y \<Longrightarrow> \<not> always_redirects c"
    and body: "(case Get_iter c req w of Inl r \<Rightarrow> Some r | Inr w' \<Rightarrow> G c req w') = Some y"
  show "\<not> always_redirects c"
  proof
    assume ar: "always_redirects c"
    from always_redirects_iter [OF ar] obtain w' where "Get_iter c req w = Inr w'"
      by blast
    with body have "G c req w' = Some y" by simp
    from IH [OF this] ar show False by simp
  qed
qed

lemma example_body_parses:
  "ParseBody (''example.com, 1234, DIRECT'' @ [LF])
     = (Some [DataRecord ''example.com'' ''1234'' DIRECT None], None)"
  by code_simp

lemmas example_defs =
  scripted_crawler_def response_with_def example_world_def example_request_def
  no_response_def example_expiry_def

text \<open>
  C5. Whenever a fetch inside Get is answered with a status from 400 to 499, Get returns at
  once: the Response is nil, the error is the client error built from the status, the domain
  and the URL, and the log of fetches has grown by that one fetch only. A status that is
  neither 200 nor in 300-499 ends Get in the same way with the general HTTP error. The
  state \<open>w\<close> is arbitrary, so this holds for the first fetch and for a fetch after redirects.
\<close>

theorem C5_client_error_no_further_fetch:
  assumes "sendRequest c (fetches w) (heap w req) = (res, None)"
  shows "(400 \<le> StatusCode res \<and> StatusCode res < 500 \<longrightarrow>
            Get c req w =
              Some (w\<lparr>fetches := fetches w @ [heap w req]\<rparr>, None,
                    Some (HTTPClientError (Status res) (Domain (heap w req)) (URL (heap w req)))))
       \<and> (StatusCode res \<noteq> 200 \<and> (StatusCode res < 300 \<or> 500 \<le> StatusCode res) \<longrightarrow>
            Get c req w =
              Some (w\<lparr>fetches := fetches w @ [heap w req]\<rparr>, None,
                    Some (HTTPGeneralError (Status res) (Domain (heap w req)) (URL (heap w req)))))"
proof (intro conjI impI)
  assume "400 \<le> StatusCode res \<and> StatusCode res < 500"
  with assms have "Get_iter c req w =
      Inl (w\<lparr>fetches := fetches w @ [heap w req]\<rparr>, None,
           Some (HTTPClientError (Status res) (Domain (heap w req)) (URL (heap w req))))"
    by (simp add: Get_iter_def Let_def)
  then show "Get c req w =
      Some (w\<lparr>fetches := fetches w @ [heap w req]\<rparr>, None,
            Some (HTTPClientError (Status res) (Domain (heap w req)) (URL (heap w req))))"
    by (rule Get_Inl)
next
  assume "StatusCode res \<noteq> 200 \<and> (StatusCode res < 300 \<or> 500 \<le> StatusCode res)"
  with assms have "Get_iter c req w =
      Inl (w\<lparr>fetches := fetches w @ [heap w req]\<rparr>, None,
           Some (HTTPGeneralError (Status res) (Domain (heap w req)) (URL (heap w req))))"
    by (auto simp: Get_iter_def Let_def)
  then show "Get c req w =
      Some (w\<lparr>fetches := fetches w @ [heap w req]\<rparr>, None,
            Some (HTTPGeneralError (Status res) (Domain (heap w req)) (URL (heap w req))))"
    by (rule Get_Inl)
qed

theorem C5_witness:
  "Get (scripted_crawler [response_with 404 ''404 Not Found'' []]) 0 example_world =
     Some (example_world\<lparr>fetches := [example_request]\<rparr>, None,
           Some (HTTPClientError ''404 Not Found'' ''example.com'' ''http://example.com/ads.txt''))
   \<and> Get (scripted_crawler [response_with 503 ''503 Service Unavailable'' []]) 0 example_world =
     Some (example_world\<lparr>fetches := [example_request]\<rparr>, None,
           Some (HTTPGeneralError ''503 Service Unavailable'' ''example.com''
                   ''http://example.com/ads.txt''))"
  using C5_client_error_no_further_fetch
          [of "scripted_crawler [response_with 404 ''404 Not Found'' []]" example_world 0
              "response_with 404 ''404 Not Found'' []"]
        C5_client_error_no_further_fetch
          [of "scripted_crawler [response_with 503 ''503 Service Unavailable'' []]" example_world 0
              "response_with 503 ''503 Service Unavailable'' []"]
  by (simp add: example_defs)

text \<open>
  C6. When a fetch is answered with status 200 and the body is read and parsed, Get returns
  a Response whose Expires is the value of the expiry signal if \<open>parseExpires\<close> reports no
  error, and the time of the call plus seven days otherwise; an error of \<open>parseExpires\<close>
  never turns the crawl into a failure.
\<close>

theorem C6_expires:
  assumes "sendRequest c (fetches w) (heap w req) = (res, None)"
    and "StatusCode res = 200"
    and "readBody c (heap w req) res = (body, None)"
    and "ParseBody body = (records, None)"
  shows "Get c req w =
           Some (w\<lparr>fetches := fetches w @ [heap w req]\<rparr>,
                 Some \<lparr>Request = req, Records = records,
                       Expires = (if snd (parseExpires c res) = None then fst (parseExpires c res)
                                  else AddDays (Now c) 7)\<rparr>,
                 None)"
proof -
  from assms have "Get_iter c req w =
      Inl (w\<lparr>fetches := fetches w @ [heap w req]\<rparr>,
           Some \<lparr>Request = req, Records = records,
                 Expires = (if snd (parseExpires c res) = None then fst (parseExpires c res)
                            else AddDays (Now c) 7)\<rparr>,
           None)"
    by (simp add: Get_iter_def Let_def split: prod.splits)
  then show ?thesis by (rule Get_Inl)
qed

theorem C6_witness:
  "Get (scripted_crawler [response_with 200 ''200 OK'' []]) 0 example_world =
     Some (example_world\<lparr>fetches := [example_request]\<rparr>,
           Some \<lparr>Request = 0, Records = Some [DataRecord ''example.com'' ''1234'' DIRECT None],
                 Expires = 1600000000000000000 + 7 * 86400 * 1000000000\<rparr>, None)
   \<and> Get (scripted_crawler [response_with 200 ''200 OK'' [(''Expires'', ''Thu, 01 Jan 2026'')]]) 0
        example_world =
     Some (example_world\<lparr>fetches := [example_request]\<rparr>,
           Some \<lparr>Request = 0, Records = Some [DataRecord ''example.com'' ''1234'' DIRECT None],
                 Expires = example_expiry\<rparr>, None)"
  using C6_expires
          [of "scripted_crawler [response_with 200 ''200 OK'' []]" example_world 0
              "response_with 200 ''200 OK'' []" "''example.com, 1234, DIRECT'' @ [LF]"
              "Some [DataRecord ''example.com'' ''1234'' DIRECT None]"]
        C6_expires
          [of "scripted_crawler [response_with 200 ''200 OK'' [(''Expires'', ''Thu, 01 Jan 2026'')]]"
              example_world 0
              "response_with 200 ''200 OK'' [(''Expires'', ''Thu, 01 Jan 2026'')]"
              "''example.com, 1234, DIRECT'' @ [LF]"
              "Some [DataRecord ''example.com'' ''1234'' DIRECT None]"]
        example_body_parses
  by (simp add: scripted_crawler_def response_with_def example_world_def example_request_def
        AddDays_def)

text \<open>
  C4 (as the code has it). When a fetch inside Get is answered with a status from 300 to 399
  and \<open>handleRedirect\<close> reports no error, the iteration rewrites the URL of the caller's
  Request to the redirect target, returns nothing, and Get goes on from that state; the
  next iteration makes exactly one fetch, with the rewritten Request, before it classifies
  anything. When \<open>handleRedirect\<close> reports an error, Get returns a nil Response and that
  error, the URL is not rewritten and no further fetch is made.
\<close>

theorem C4_redirect_followed:
  assumes "sendRequest c (fetches w) (heap w req) = (res, None)"
    and "300 \<le> StatusCode res" and "StatusCode res < 400"
    and "handleRedirect c (heap w req) res = (target, e)"
  shows "(e = None \<longrightarrow>
            Get_iter c req w =
              Inr (w\<lparr>fetches := fetches w @ [heap w req],
                      heap := (heap w)(req := (heap w req)\<lparr>URL := target\<rparr>)\<rparr>)
          \<and> Get c req w =
              Get c req (w\<lparr>fetches := fetches w @ [heap w req],
                            heap := (heap w)(req := (heap w req)\<lparr>URL := target\<rparr>)\<rparr>)
          \<and> fetches (world_after (Get_iter c req
                (w\<lparr>fetches := fetches w @ [heap w req],
                    heap := (heap w)(req := (heap w req)\<lparr>URL := target\<rparr>)\<rparr>)))
              = fetches w @ [heap w req, (heap w req)\<lparr>URL := target\<rparr>])
       \<and> (e \<noteq> None \<longrightarrow>
            Get c req w = Some (w\<lparr>fetches := fetches w @ [heap w req]\<rparr>, None, e))"
proof (intro conjI impI)
  assume e: "e = None"
  with assms show it: "Get_iter c req w =
      Inr (w\<lparr>fetches := fetches w @ [heap w req],
              heap := (heap w)(req := (heap w req)\<lparr>URL := target\<rparr>)\<rparr>)"
    by (simp add: Get_iter_def Let_def)
  then show "Get c req w =
      Get c req (w\<lparr>fetches := fetches w @ [heap w req],
                    heap := (heap w)(req := (heap w req)\<lparr>URL := target\<rparr>)\<rparr>)"
    by (rule Get_Inr)
  show "fetches (world_after (Get_iter c req
          (w\<lparr>fetches := fetches w @ [heap w req],
              heap := (heap w)(req := (heap w req)\<lparr>URL := target\<rparr>)\<rparr>)))
        = fetches w @ [heap w req, (heap w req)\<lparr>URL := target\<rparr>]"
  proof (cases "Get_iter c req
          (w\<lparr>fetches := fetches w @ [heap w req],
              heap := (heap w)(req := (heap w req)\<lparr>URL := target\<rparr>)\<rparr>)")
    case (Inl r)
    obtain w2 resp e2 where r: "r = (w2, resp, e2)" by (cases r) auto
    from Get_iter_Inl [OF Inl [unfolded r]] Inl r
    show ?thesis by (simp add: world_after_def)
  next
    case (Inr w2)
    from Get_iter_Inr [OF Inr] Inr show ?thesis by (simp add: world_after_def)
  qed
next
  assume "e \<noteq> None"
  with assms have "Get_iter c req w = Inl (w\<lparr>fetches := fetches w @ [heap w req]\<rparr>, None, e)"
    by (simp add: Get_iter_def Let_def)
  then show "Get c req w = Some (w\<lparr>fetches := fetches w @ [heap w req]\<rparr>, None, e)"
    by (rule Get_Inl)
qed

text \<open>
  A 301 response with a Location header, followed by a 404 at the new location: one
  follow-up fetch, made with the rewritten URL.
\<close>

theorem C4_witness:
  "Get (scripted_crawler
          [response_with 301 ''301 Moved Permanently'' [(''Location'', ''http://www.example.com/ads.txt'')],
           response_with 404 ''404 Not Found'' []]) 0 example_world
     = Some (\<lparr>heap = (\<lambda>p. example_request)(0 := example_request\<lparr>URL := ''http://www.example.com/ads.txt''\<rparr>),
              fetches = [example_request, example_request\<lparr>URL := ''http://www.example.com/ads.txt''\<rparr>]\<rparr>,
             None,
             Some (HTTPClientError ''404 Not Found'' ''example.com'' ''http://www.example.com/ads.txt''))
   \<and> Get (scripted_crawler [response_with 302 ''302 Found'' []]) 0 example_world
     = Some (example_world\<lparr>fetches := [example_request]\<rparr>, None,
             Some (CrawlerError ''no Location header''))"
proof -
  let ?c = "scripted_crawler
          [response_with 301 ''301 Moved Permanently'' [(''Location'', ''http://www.example.com/ads.txt'')],
           response_with 404 ''404 Not Found'' []]"
  let ?w1 = "example_world\<lparr>fetches := fetches example_world @ [heap example_world 0],
      heap := (heap example_world)(0 := (heap example_world 0)\<lparr>URL := ''http://www.example.com/ads.txt''\<rparr>)\<rparr>"
  have "Get ?c 0 example_world = Get ?c 0 ?w1"
    using C4_redirect_followed
      [of ?c example_world 0
          "response_with 301 ''301 Moved Permanently'' [(''Location'', ''http://www.example.com/ads.txt'')]"
          "''http://www.example.com/ads.txt''" None]
    by (simp add: example_defs)
  moreover have "Get_iter ?c 0 ?w1 =
      Inl (\<lparr>heap = (\<lambda>p. example_request)(0 := example_request\<lparr>URL := ''http://www.example.com/ads.txt''\<rparr>),
              fetches = [example_request, example_request\<lparr>URL := ''http://www.example.com/ads.txt''\<rparr>]\<rparr>,
             None,
             Some (HTTPClientError ''404 Not Found'' ''example.com'' ''http://www.example.com/ads.txt''))"
    by (simp add: Get_iter_def example_defs)
  ultimately have followed: "Get ?c 0 example_world =
      Some (\<lparr>heap = (\<lambda>p. example_request)(0 := example_request\<lparr>URL := ''http://www.example.com/ads.txt''\<rparr>),
              fetches = [example_request, example_request\<lparr>URL := ''http://www.example.com/ads.txt''\<rparr>]\<rparr>,
             None,
             Some (HTTPClientError ''404 Not Found'' ''example.com'' ''http://www.example.com/ads.txt''))"
    by (simp add: Get_Inl)
  have "Get (scripted_crawler [response_with 302 ''302 Found'' []]) 0 example_world
     = Some (example_world\<lparr>fetches := [example_request]\<rparr>, None,
             Some (CrawlerError ''no Location header''))"
    using C4_redirect_followed
      [of "scripted_crawler [response_with 302 ''302 Found'' []]" example_world 0
          "response_with 302 ''302 Found'' []" "[]" "Some (CrawlerError ''no Location header'')"]
    by (simp add: example_defs)
  with followed show ?thesis by simp
qed

text \<open>
  The claim as stated fails: a 301 response without a Location header is a fetch with a
  status in 300-399 after which Get returns the error of \<open>handleRedirect\<close>; the URL is
  not rewritten and the one fetch is the only one.
\<close>

theorem C4_counterexample:
  "StatusCode (fst (sendRequest (scripted_crawler [response_with 301 ''301 Moved Permanently'' []])
                      (fetches example_world) (heap example_world 0))) = 301
   \<and> Get (scripted_crawler [response_with 301 ''301 Moved Permanently'' []]) 0 example_world
       = Some (example_world\<lparr>fetches := [example_request]\<rparr>, None,
               Some (CrawlerError ''no Location header''))"
proof -
  have "Get_iter (scripted_crawler [response_with 301 ''301 Moved Permanently'' []]) 0 example_world
      = Inl (example_world\<lparr>fetches := [example_request]\<rparr>, None,
             Some (CrawlerError ''no Location header''))"
    by (simp add: Get_iter_def example_defs)
  then show ?thesis by (simp add: Get_Inl) (simp add: example_defs)
qed

text \<open>
  C7. Get has no bound on the number of redirect hops. If the network answers every fetch
  with a status in 300-399 and the redirect target can always be extracted, Get never
  returns. And for every \<open>n\<close> there is a crawl that follows \<open>n\<close> redirects and returns only
  after fetch number \<open>n + 1\<close>, the first one that is not answered with a redirect.
\<close>

lemma redirect_chain:
  "length (fetches w) \<le> n \<Longrightarrow>
     \<exists>y. Get (scripted_crawler
                (replicate n (response_with 301 ''301 Moved Permanently'' [(''Location'', ''http://example.com/ads.txt'')])
                 @ [response_with 404 ''404 Not Found'' []])) req w = Some y
          \<and> length (fetches (fst y)) = n + 1"
proof (induction "n - length (fetches w)" arbitrary: w)
  case 0
  then have len: "length (fetches w) = n" by simp
  let ?c = "scripted_crawler
                (replicate n (response_with 301 ''301 Moved Permanently'' [(''Location'', ''http://example.com/ads.txt'')])
                 @ [response_with 404 ''404 Not Found'' []])"
  have "Get_iter ?c req w =
      Inl (w\<lparr>fetches := fetches w @ [heap w req]\<rparr>, None,
           Some (HTTPClientError ''404 Not Found'' (Domain (heap w req)) (URL (heap w req))))"
    using len by (simp add: Get_iter_def scripted_crawler_def nth_append response_with_def)
  from Get_Inl [OF this] len show ?case by simp
next
  case (Suc k)
  then have len: "length (fetches w) < n" by simp
  let ?c = "scripted_crawler
                (replicate n (response_with 301 ''301 Moved Permanently'' [(''Location'', ''http://example.com/ads.txt'')])
                 @ [response_with 404 ''404 Not Found'' []])"
  let ?w1 = "w\<lparr>fetches := fetches w @ [heap w req],
      heap := (heap w)(req := (heap w req)\<lparr>URL := ''http://example.com/ads.txt''\<rparr>)\<rparr>"
  have "Get_iter ?c req w = Inr ?w1"
    using len by (simp add: Get_iter_def scripted_crawler_def nth_append response_with_def)
  then have "Get ?c req w = Get ?c req ?w1" by (rule Get_Inr)
  moreover have "k = n - length (fetches ?w1)" and "length (fetches ?w1) \<le> n"
    using Suc.hyps(2) len by simp_all
  from Suc.hyps(1) [OF this] obtain y where "Get ?c req ?w1 = Some y"
    and "length (fetches (fst y)) = n + 1" by blast
  ultimately show ?case by simp
qed

theorem C7_no_bound_on_redirects:
  "(always_redirects c \<longrightarrow> Get c req w = None)
   \<and> (\<exists>y. Get (scripted_crawler
                (replicate n (response_with 301 ''301 Moved Permanently''
                                [(''Location'', ''http://example.com/ads.txt'')])
                 @ [response_with 404 ''404 Not Found'' []])) 0 example_world = Some y
          \<and> length (fetches (fst y)) = n + 1)"
proof (intro conjI impI)
  assume ar: "always_redirects c"
  show "Get c req w = None"
  proof (cases "Get c req w")
    case None
    then show ?thesis .
  next
    case (Some y)
    from always_redirects_no_result [OF this] ar show ?thesis by simp
  qed
next
  have "length (fetches example_world) \<le> n" by (simp add: example_world_def)
  from redirect_chain [OF this]
  show "\<exists>y. Get (scripted_crawler
                (replicate n (response_with 301 ''301 Moved Permanently''
                                [(''Location'', ''http://example.com/ads.txt'')])
                 @ [response_with 404 ''404 Not Found'' []])) 0 example_world = Some y
          \<and> length (fetches (fst y)) = n + 1" .
qed

text \<open>The redirect cycle: every fetch is answered with a 301 back to the URL just fetched.\<close>

theorem C7_witness:
  "always_redirects redirecting_crawler \<and> Get redirecting_crawler 0 example_world = None"
proof -
  have ar: "always_redirects redirecting_crawler"
    by (simp add: always_redirects_def redirecting_crawler_def scripted_crawler_def)
  with C7_no_bound_on_redirects [of redirecting_crawler 0 example_world 0]
  show ?thesis by simp
qed

text \<open>
  C9. Whenever Get returns, the heap of Requests differs from the one Get started with at
  most in the URL of the Request it was given: the Domain of that Request and every other
  Request are unchanged, whatever the outcome. A crawl that returns after a single fetch,
  that is, without a redirect, leaves the Request as it was.
\<close>

theorem C9_only_URL_rewritten:
  assumes "Get c req w = Some (w', out)"
  shows "Domain (heap w' req) = Domain (heap w req)
       \<and> heap w' = (heap w)(req := (heap w req)\<lparr>URL := URL (heap w' req)\<rparr>)
       \<and> (\<forall>p. p \<noteq> req \<longrightarrow> heap w' p = heap w p)
       \<and> (length (fetches w') = length (fetches w) + 1 \<longrightarrow> heap w' = heap w)"
proof -
  from Get_frame [OF assms]
  have upd: "heap w' = (heap w)(req := (heap w req)\<lparr>URL := URL (heap w' req)\<rparr>)"
    and one: "length (fetches w') = length (fetches w) + 1 \<longrightarrow> heap w' = heap w"
    by simp_all
  from upd have "heap w' req = (heap w req)\<lparr>URL := URL (heap w' req)\<rparr>"
    by (metis fun_upd_same)
  then have "Domain (heap w' req) = Domain (heap w req)"
    by (metis Request.select_convs(1) Request.surjective Request.update_convs(2))
  moreover from upd have "\<forall>p. p \<noteq> req \<longrightarrow> heap w' p = heap w p"
    by (metis fun_upd_other)
  ultimately show ?thesis using upd one by blast
qed

theorem C9_witness:
  "Get (scripted_crawler
          [response_with 301 ''301 Moved Permanently'' [(''Location'', ''http://www.example.com/ads.txt'')],
           response_with 404 ''404 Not Found'' []]) 0 example_world
     = Some (\<lparr>heap = (\<lambda>p. example_request)(0 := example_request\<lparr>URL := ''http://www.example.com/ads.txt''\<rparr>),
              fetches = [example_request, example_request\<lparr>URL := ''http://www.example.com/ads.txt''\<rparr>]\<rparr>,
             None,
             Some (HTTPClientError ''404 Not Found'' ''example.com'' ''http://www.example.com/ads.txt''))
   \<and> Domain (((\<lambda>p. example_request)(0 := example_request\<lparr>URL := ''http://www.example.com/ads.txt''\<rparr>)) (0::nat))
       = Domain (heap example_world 0)"
proof -
  let ?c = "scripted_crawler
          [response_with 301 ''301 Moved Permanently'' [(''Location'', ''http://www.example.com/ads.txt'')],
           response_with 404 ''404 Not Found'' []]"
  let ?w1 = "example_world\<lparr>fetches := fetches example_world @ [heap example_world 0],
      heap := (heap example_world)(0 := (heap example_world 0)\<lparr>URL := ''http://www.example.com/ads.txt''\<rparr>)\<rparr>"
  have "Get_iter ?c 0 example_world = Inr ?w1"
    by (simp add: Get_iter_def example_defs)
  then have "Get ?c 0 example_world = Get ?c 0 ?w1" by (rule Get_Inr)
  moreover have "Get_iter ?c 0 ?w1 =
      Inl (\<lparr>heap = (\<lambda>p. example_request)(0 := example_request\<lparr>URL := ''http://www.example.com/ads.txt''\<rparr>),
              fetches = [example_request, example_request\<lparr>URL := ''http://www.example.com/ads.txt''\<rparr>]\<rparr>,
             None,
             Some (HTTPClientError ''404 Not Found'' ''example.com'' ''http://www.example.com/ads.txt''))"
    by (simp add: Get_iter_def example_defs)
  ultimately have run: "Get ?c 0 example_world =
      Some (\<lparr>heap = (\<lambda>p. example_request)(0 := example_request\<lparr>URL := ''http://www.example.com/ads.txt''\<rparr>),
              fetches = [example_request, example_request\<lparr>URL := ''http://www.example.com/ads.txt''\<rparr>]\<rparr>,
             None,
             Some (HTTPClientError ''404 Not Found'' ''example.com'' ''http://www.example.com/ads.txt''))"
    by (simp add: Get_Inl)
  from C9_only_URL_rewritten [OF run] run show ?thesis by simp
qed



end
